theory Spec2Isabelle
  imports Main "HOL-Library.Multiset"
begin

section \<open>Python values used by the script\<close>

text \<open>
  The script \<^verbatim>\<open>main.py\<close> builds a dictionary \<^verbatim>\<open>Q\<close> keyed by pairs of variable
  names and decodes a sample back into lattice positions. Indices produced by
  \<^verbatim>\<open>range\<close> are natural numbers, coefficients are Python integers, names are strings.
  Every place where Python can raise is a branch of the model returning \<open>Inl\<close>.
\<close>

datatype error = KeyError | IndexError | ValueError

fun bind_e :: "error + 'a \<Rightarrow> ('a \<Rightarrow> error + 'b) \<Rightarrow> error + 'b" where
  "bind_e (Inl e) f = Inl e"
| "bind_e (Inr x) f = f x"

text \<open>A \<^verbatim>\<open>for x in xs: body\<close> loop over a state; an exception in the body ends the loop.\<close>

fun for_each :: "'a list \<Rightarrow> ('a \<Rightarrow> 's \<Rightarrow> error + 's) \<Rightarrow> 's \<Rightarrow> error + 's" where
  "for_each [] body s = Inr s"
| "for_each (x # xs) body s = bind_e (body x s) (for_each xs body)"

text \<open>A list comprehension \<^verbatim>\<open>[e(x) for x in xs]\<close> whose element expression may raise.\<close>

fun collect :: "'a list \<Rightarrow> ('a \<Rightarrow> error + 'b) \<Rightarrow> error + 'b list" where
  "collect [] e = Inr []"
| "collect (x # xs) e = bind_e (e x) (\<lambda>y. bind_e (collect xs e) (\<lambda>ys. Inr (y # ys)))"

text \<open>Subscription \<^verbatim>\<open>d[k]\<close> of a dictionary and \<^verbatim>\<open>s[i]\<close> of a sequence, \<open>i \<ge> 0\<close>.\<close>

definition dict_get :: "('k \<rightharpoonup> 'v) \<Rightarrow> 'k \<Rightarrow> error + 'v" where
  "dict_get d k = (case d k of None \<Rightarrow> Inl KeyError | Some v \<Rightarrow> Inr v)"

definition seq_get :: "'a list \<Rightarrow> nat \<Rightarrow> error + 'a" where
  "seq_get s i = (if i < length s then Inr (s ! i) else Inl IndexError)"

subsection \<open>Decimal rendering and variable names\<close>

definition digit_char :: "nat \<Rightarrow> char" where
  "digit_char d = char_of (48 + d)"

text \<open>\<^verbatim>\<open>str(n)\<close> for a non-negative integer: decimal digits, no leading zero.\<close>

fun str_nat :: "nat \<Rightarrow> string" where
  "str_nat n = (if n < 10 then [digit_char n] else str_nat (n div 10) @ [digit_char (n mod 10)])"

declare str_nat.simps [simp del]

text \<open>The f-string \<^verbatim>\<open>f"x_{i}_{j}_{k}"\<close>.\<close>

definition var_name :: "nat \<Rightarrow> nat \<Rightarrow> nat \<Rightarrow> string" where
  "var_name i j k = ''x_'' @ str_nat i @ ''_'' @ str_nat j @ ''_'' @ str_nat k"

section \<open>Problem size and the variable dictionary\<close>

definition N_of :: "string \<Rightarrow> nat" where
  "N_of sequence = length sequence"

definition L_of :: "string \<Rightarrow> nat" where
  "L_of sequence = length sequence div 2 + 1"

text \<open>Checkerboard rule \<^verbatim>\<open>(j + k) % 2 == i % 2\<close>.\<close>

definition site_ok :: "nat \<Rightarrow> nat \<Rightarrow> nat \<Rightarrow> bool" where
  "site_ok i j k \<longleftrightarrow> (j + k) mod 2 = i mod 2"

text \<open>A dictionary built from key/value pairs in order, a later pair replacing an earlier one.\<close>

definition dict_of :: "('k \<times> 'v) list \<Rightarrow> ('k \<rightharpoonup> 'v)" where
  "dict_of kvs = fold (\<lambda>(k, v) d. d(k \<mapsto> v)) kvs Map.empty"

definition variable_items :: "string \<Rightarrow> ((nat \<times> nat \<times> nat) \<times> string) list" where
  "variable_items sequence =
     [((i, j, k), var_name i j k).
        i \<leftarrow> [0..<N_of sequence], j \<leftarrow> [0..<L_of sequence], k \<leftarrow> [0..<L_of sequence],
        site_ok i j k]"

definition variables :: "string \<Rightarrow> (nat \<times> nat \<times> nat) \<rightharpoonup> string" where
  "variables sequence = dict_of (variable_items sequence)"

section \<open>The QUBO dictionary\<close>

type_synonym qubo = "(string \<times> string) \<rightharpoonup> int"

text \<open>\<^verbatim>\<open>def interaction(h1, h2): return -1 if h1 == 'H' and h2 == 'H' else 0\<close>\<close>

definition interaction :: "char \<Rightarrow> char \<Rightarrow> int" where
  "interaction h1 h2 = (if h1 = CHR ''H'' \<and> h2 = CHR ''H'' then - 1 else 0)"

text \<open>\<^verbatim>\<open>interaction(sequence[f], sequence[fp])\<close>, with both subscriptions.\<close>

definition interaction_at :: "string \<Rightarrow> nat \<Rightarrow> nat \<Rightarrow> error + int" where
  "interaction_at sequence f fp =
     bind_e (seq_get sequence f) (\<lambda>h1.
     bind_e (seq_get sequence fp) (\<lambda>h2. Inr (interaction h1 h2)))"

text \<open>\<^verbatim>\<open>abs(j - jp) + abs(k - kp) == 1\<close> on Python integers.\<close>

definition neighbours :: "nat \<Rightarrow> nat \<Rightarrow> nat \<Rightarrow> nat \<Rightarrow> bool" where
  "neighbours j k jp kp \<longleftrightarrow> \<bar>int j - int jp\<bar> + \<bar>int k - int kp\<bar> = 1"

text \<open>
  The two ways the script accumulates into \<^verbatim>\<open>Q\<close>:
  \<^verbatim>\<open>if pair in Q: Q[pair] += v  else: Q[pair] = v\<close> (Term 1) and
  \<^verbatim>\<open>Q[key] = Q.get(key, 0) + v\<close> (Terms 2 to 4).
\<close>

definition add_pair :: "qubo \<Rightarrow> string \<times> string \<Rightarrow> int \<Rightarrow> qubo" where
  "add_pair Q pair v = (if pair \<in> dom Q then Q(pair \<mapsto> the (Q pair) + v) else Q(pair \<mapsto> v))"

definition dict_get_default :: "('k \<rightharpoonup> 'v) \<Rightarrow> 'k \<Rightarrow> 'v \<Rightarrow> 'v" where
  "dict_get_default d k dflt = (case d k of None \<Rightarrow> dflt | Some v \<Rightarrow> v)"

definition add_get :: "qubo \<Rightarrow> string \<times> string \<Rightarrow> int \<Rightarrow> qubo" where
  "add_get Q key v = Q(key \<mapsto> dict_get_default Q key 0 + v)"

subsection \<open>Term 1: HP energy (lines 54 to 68)\<close>

definition term1_site ::
  "string \<Rightarrow> nat \<Rightarrow> nat \<Rightarrow> nat \<Rightarrow> nat \<Rightarrow> nat \<Rightarrow> nat \<Rightarrow> qubo \<Rightarrow> error + qubo" where
  "term1_site sequence f fp j k jp kp Q =
     (if neighbours j k jp kp then
        (if site_ok f j k \<and> site_ok fp jp kp then
           bind_e (dict_get (variables sequence) (f, j, k)) (\<lambda>a.
           bind_e (dict_get (variables sequence) (fp, jp, kp)) (\<lambda>b.
           bind_e (interaction_at sequence f fp) (\<lambda>v.
           Inr (add_pair Q (a, b) v))))
         else Inr Q)
      else Inr Q)"

definition term1 :: "string \<Rightarrow> qubo \<Rightarrow> error + qubo" where
  "term1 sequence =
     for_each [0..<N_of sequence] (\<lambda>f.
     for_each [f + 2..<N_of sequence] (\<lambda>fp Q.
       bind_e (interaction_at sequence f fp) (\<lambda>v.
         if v \<noteq> 0 then
           for_each [0..<L_of sequence] (\<lambda>j.
           for_each [0..<L_of sequence] (\<lambda>k.
           for_each [0..<L_of sequence] (\<lambda>jp.
           for_each [0..<L_of sequence] (\<lambda>kp.
             term1_site sequence f fp j k jp kp)))) Q
         else Inr Q)))"

subsection \<open>Term 2: one site per bead (lines 70 to 77)\<close>

definition one_site :: "string \<Rightarrow> nat \<Rightarrow> nat \<Rightarrow> nat \<Rightarrow> error + string list" where
  "one_site sequence i j k =
     collect [(jp, kp). jp \<leftarrow> [0..<L_of sequence], kp \<leftarrow> [0..<L_of sequence],
                site_ok i jp kp \<and> (jp, kp) \<noteq> (j, k)]
       (\<lambda>(jp, kp). dict_get (variables sequence) (i, jp, kp))"

definition term2 :: "string \<Rightarrow> qubo \<Rightarrow> error + qubo" where
  "term2 sequence =
     for_each [0..<N_of sequence] (\<lambda>i.
     for_each [0..<L_of sequence] (\<lambda>j.
     for_each [0..<L_of sequence] (\<lambda>k Q.
       if site_ok i j k then
         bind_e (one_site sequence i j k) (\<lambda>vars.
           for_each vars (\<lambda>var Q.
             bind_e (dict_get (variables sequence) (i, j, k)) (\<lambda>a.
             Inr (add_get Q (a, var) 2))) Q)
       else Inr Q)))"

subsection \<open>Term 3: self-avoidance (lines 79 to 86)\<close>

definition beads :: "string \<Rightarrow> nat \<Rightarrow> nat \<Rightarrow> error + string list" where
  "beads sequence j k =
     collect [i. i \<leftarrow> [0..<N_of sequence], (i, j, k) \<in> dom (variables sequence)]
       (\<lambda>i. dict_get (variables sequence) (i, j, k))"

definition term3 :: "string \<Rightarrow> qubo \<Rightarrow> error + qubo" where
  "term3 sequence =
     for_each [0..<L_of sequence] (\<lambda>j.
     for_each [0..<L_of sequence] (\<lambda>k Q.
       bind_e (beads sequence j k) (\<lambda>bs.
         if length bs > 1 then
           for_each [0..<length bs] (\<lambda>b1.
           for_each [b1 + 1..<length bs] (\<lambda>b2 Q.
             bind_e (seq_get bs b1) (\<lambda>x.
             bind_e (seq_get bs b2) (\<lambda>y.
             Inr (add_get Q (x, y) 10))))) Q
         else Inr Q)))"

subsection \<open>Term 4: connectivity (lines 88 to 99)\<close>

definition possible_next_positions :: "string \<Rightarrow> nat \<Rightarrow> nat \<Rightarrow> nat \<Rightarrow> (nat \<times> nat) list" where
  "possible_next_positions sequence i j k =
     [(jp, kp). jp \<leftarrow> [0..<L_of sequence], kp \<leftarrow> [0..<L_of sequence],
        neighbours j k jp kp \<and> site_ok (i + 1) jp kp]"

text \<open>
  \<^verbatim>\<open>range(N - 1)\<close> is empty for \<open>N = 0\<close> as well as for \<open>N = 1\<close>, which is what the
  truncating subtraction on \<open>nat\<close> gives.
\<close>

definition term4 :: "string \<Rightarrow> qubo \<Rightarrow> error + qubo" where
  "term4 sequence =
     for_each [0..<N_of sequence - 1] (\<lambda>i.
     for_each [0..<L_of sequence] (\<lambda>j.
     for_each [0..<L_of sequence] (\<lambda>k Q.
       if site_ok i j k then
         (let pnp = possible_next_positions sequence i j k in
          if pnp \<noteq> [] then
            bind_e (collect pnp (\<lambda>(jp, kp). dict_get (variables sequence) (i + 1, jp, kp)))
              (\<lambda>next_bead_vars.
                for_each next_bead_vars (\<lambda>next_var Q.
                  bind_e (dict_get (variables sequence) (i, j, k)) (\<lambda>a.
                  Inr (add_get Q (a, next_var) (- 3)))) Q)
          else Inr Q)
       else Inr Q)))"

subsection \<open>The whole construction\<close>

definition qubo :: "string \<Rightarrow> error + qubo" where
  "qubo sequence =
     bind_e (term1 sequence Map.empty) (\<lambda>Q.
     bind_e (term2 sequence Q) (\<lambda>Q.
     bind_e (term3 sequence Q) (\<lambda>Q.
     term4 sequence Q)))"

text \<open>The same four loops run in another order, for comparison with \<open>qubo\<close>.\<close>

definition run_terms :: "(qubo \<Rightarrow> error + qubo) list \<Rightarrow> qubo \<Rightarrow> error + qubo" where
  "run_terms ts = for_each ts (\<lambda>t. t)"

text \<open>The coefficient of a pair, an absent key counting as 0.\<close>

definition coeff :: "qubo \<Rightarrow> string \<times> string \<Rightarrow> int" where
  "coeff Q p = dict_get_default Q p 0"

section \<open>Decoding a sample (lines 115 to 123)\<close>

text \<open>\<^verbatim>\<open>s.split(sep)\<close> for a one-character separator: every occurrence splits.\<close>

fun split :: "char \<Rightarrow> string \<Rightarrow> string list" where
  "split sep [] = [[]]"
| "split sep (c # cs) =
     (if c = sep then [] # split sep cs
      else (case split sep cs of w # ws \<Rightarrow> (c # w) # ws | [] \<Rightarrow> [[c]]))"

definition is_digit :: "char \<Rightarrow> bool" where
  "is_digit c \<longleftrightarrow> 48 \<le> (of_char c :: nat) \<and> (of_char c :: nat) \<le> 57"

text \<open>
  A \<open>char\<close> stands for a code point below 256. In that range \<^verbatim>\<open>int\<close> treats as whitespace
  the code points 9 to 13, 28 to 32, 133 (hex 85) and 160 (hex A0).
\<close>

definition is_space :: "char \<Rightarrow> bool" where
  "is_space c \<longleftrightarrow>
     (of_char c :: nat) \<in> {9, 10, 11, 12, 13, 28, 29, 30, 31, 32, 133, 160}"

definition strip :: "string \<Rightarrow> string" where
  "strip s = rev (dropWhile is_space (rev (dropWhile is_space s)))"

definition digits_value :: "string \<Rightarrow> nat" where
  "digits_value ds = foldl (\<lambda>a c. 10 * a + (of_char c - 48)) 0 ds"

text \<open>
  \<^verbatim>\<open>int(s)\<close> on the strings the decoder passes to it: surrounding whitespace is dropped,
  one sign is accepted, and what remains must be a non-empty run of the digits 0 to 9;
  anything else raises \<^verbatim>\<open>ValueError\<close>. Python further accepts single underscores between
  digits, which cannot occur in a part returned by \<^verbatim>\<open>split('_')\<close>, and the decimal digits
  and whitespace at code points from 256 on, which a \<open>char\<close> does not represent. The
  interpreter's configurable limit on the number of digits is not modelled.
\<close>

definition py_int :: "string \<Rightarrow> error + int" where
  "py_int s =
     (let t = strip s;
          neg = (t \<noteq> [] \<and> hd t = CHR ''-'');
          ds = (if t \<noteq> [] \<and> (hd t = CHR ''-'' \<or> hd t = CHR ''+'') then tl t else t)
      in if ds \<noteq> [] \<and> list_all is_digit ds
         then Inr (if neg then - int (digits_value ds) else int (digits_value ds))
         else Inl ValueError)"

fun decode_item :: "string \<times> int \<Rightarrow> (int \<rightharpoonup> int \<times> int) \<Rightarrow> error + (int \<rightharpoonup> int \<times> int)" where
  "decode_item (variable_name, val) positions =
     (if val = 1 then
        (let parts = split CHR ''_'' variable_name in
           bind_e (seq_get parts 1) (\<lambda>p1.
           bind_e (py_int p1) (\<lambda>i.
           bind_e (seq_get parts 2) (\<lambda>p2.
           bind_e (py_int p2) (\<lambda>j.
           bind_e (seq_get parts 3) (\<lambda>p3.
           bind_e (py_int p3) (\<lambda>k.
           Inr (positions(i \<mapsto> (j, k)))
           )))))))
      else Inr positions)"

text \<open>
  The sample is a dictionary; \<^verbatim>\<open>.items()\<close> yields its entries in order, here a list of
  name/value pairs.
\<close>

definition decode :: "(string \<times> int) list \<Rightarrow> error + (int \<rightharpoonup> int \<times> int)" where
  "decode sample = for_each sample decode_item Map.empty"

section \<open>Auxiliary definitions for the proofs\<close>

text \<open>
  The definitions of this section are not taken from the script. They name what the proofs
  talk about: the list of writes of each loop nest in the order the loop makes them
  (\<open>contribs1\<close> to \<open>contribs4\<close>), the set of keys each term writes (\<open>keys1\<close> to \<open>keys4\<close>), and
  the effect of adding one value at every key of a set (\<open>bump\<close>). The lemmas
  \<open>term1_accum\<close> to \<open>term4_accum\<close> show that the loops of the script make exactly these
  writes, and \<open>term1_result\<close> to \<open>term4_result\<close> that their effect is a \<open>bump\<close>.
\<close>

definition accum :: "((string \<times> string) \<times> int) list \<Rightarrow> qubo \<Rightarrow> qubo" where
  "accum cs Q = fold (\<lambda>(p, v) Q. add_get Q p v) cs Q"

definition contribs1 :: "string \<Rightarrow> ((string \<times> string) \<times> int) list" where
  "contribs1 sequence =
     [((var_name f j k, var_name fp jp kp), - 1).
        f \<leftarrow> [0..<N_of sequence], fp \<leftarrow> [f + 2..<N_of sequence],
        sequence ! f = CHR ''H'' \<and> sequence ! fp = CHR ''H'',
        j \<leftarrow> [0..<L_of sequence], k \<leftarrow> [0..<L_of sequence],
        jp \<leftarrow> [0..<L_of sequence], kp \<leftarrow> [0..<L_of sequence],
        neighbours j k jp kp, site_ok f j k \<and> site_ok fp jp kp]"

definition variable_keys :: "string \<Rightarrow> (nat \<times> nat \<times> nat) list" where
  "variable_keys sequence =
     [(i, j, k). i \<leftarrow> [0..<N_of sequence], j \<leftarrow> [0..<L_of sequence], k \<leftarrow> [0..<L_of sequence],
        site_ok i j k]"

definition contribs2 :: "string \<Rightarrow> ((string \<times> string) \<times> int) list" where
  "contribs2 sequence =
     [((var_name i j k, var_name i jp kp), 2).
        i \<leftarrow> [0..<N_of sequence], j \<leftarrow> [0..<L_of sequence], k \<leftarrow> [0..<L_of sequence],
        site_ok i j k,
        jp \<leftarrow> [0..<L_of sequence], kp \<leftarrow> [0..<L_of sequence],
        site_ok i jp kp \<and> (jp, kp) \<noteq> (j, k)]"

definition bead_ids :: "string \<Rightarrow> nat \<Rightarrow> nat \<Rightarrow> nat list" where
  "bead_ids sequence j k = [i. i \<leftarrow> [0..<N_of sequence], (i, j, k) \<in> dom (variables sequence)]"

definition bead_names :: "string \<Rightarrow> nat \<Rightarrow> nat \<Rightarrow> string list" where
  "bead_names sequence j k = map (\<lambda>i. var_name i j k) (bead_ids sequence j k)"

definition contribs3 :: "string \<Rightarrow> ((string \<times> string) \<times> int) list" where
  "contribs3 sequence =
     [((bead_names sequence j k ! b1, bead_names sequence j k ! b2), 10).
        j \<leftarrow> [0..<L_of sequence], k \<leftarrow> [0..<L_of sequence],
        b1 \<leftarrow> [0..<length (bead_names sequence j k)],
        b2 \<leftarrow> [b1 + 1..<length (bead_names sequence j k)]]"

definition contribs4 :: "string \<Rightarrow> ((string \<times> string) \<times> int) list" where
  "contribs4 sequence =
     [((var_name i j k, var_name (i + 1) jp kp), - 3).
        i \<leftarrow> [0..<N_of sequence - 1], j \<leftarrow> [0..<L_of sequence], k \<leftarrow> [0..<L_of sequence],
        site_ok i j k,
        jp \<leftarrow> [0..<L_of sequence], kp \<leftarrow> [0..<L_of sequence],
        neighbours j k jp kp \<and> site_ok (i + 1) jp kp]"

definition keys1 :: "string \<Rightarrow> (string \<times> string) set" where
  "keys1 sequence =
     {(var_name f j k, var_name fp jp kp) | f fp j k jp kp.
        f + 2 \<le> fp \<and> fp < N_of sequence \<and>
        sequence ! f = CHR ''H'' \<and> sequence ! fp = CHR ''H'' \<and>
        j < L_of sequence \<and> k < L_of sequence \<and> jp < L_of sequence \<and> kp < L_of sequence \<and>
        neighbours j k jp kp \<and> site_ok f j k \<and> site_ok fp jp kp}"

definition keys2 :: "string \<Rightarrow> (string \<times> string) set" where
  "keys2 sequence =
     {(var_name i j k, var_name i jp kp) | i j k jp kp.
        i < N_of sequence \<and>
        j < L_of sequence \<and> k < L_of sequence \<and> jp < L_of sequence \<and> kp < L_of sequence \<and>
        site_ok i j k \<and> site_ok i jp kp \<and> (jp, kp) \<noteq> (j, k)}"

definition keys3 :: "string \<Rightarrow> (string \<times> string) set" where
  "keys3 sequence =
     {(var_name i1 j k, var_name i2 j k) | i1 i2 j k.
        i1 < i2 \<and> i2 < N_of sequence \<and> j < L_of sequence \<and> k < L_of sequence \<and>
        site_ok i1 j k \<and> site_ok i2 j k}"

definition keys4 :: "string \<Rightarrow> (string \<times> string) set" where
  "keys4 sequence =
     {(var_name i j k, var_name (i + 1) jp kp) | i j k jp kp.
        i + 1 < N_of sequence \<and>
        j < L_of sequence \<and> k < L_of sequence \<and> jp < L_of sequence \<and> kp < L_of sequence \<and>
        site_ok i j k \<and> neighbours j k jp kp \<and> site_ok (i + 1) jp kp}"

definition bump :: "(string \<times> string) set \<Rightarrow> int \<Rightarrow> qubo \<Rightarrow> qubo" where
  "bump K v Q = (\<lambda>p. if p \<in> K then Some (coeff Q p + v) else Q p)"

text \<open>What a term leaves behind, for comparing orders of the four loops.\<close>

definition outcome :: "(qubo \<Rightarrow> error + qubo) \<Rightarrow> qubo \<Rightarrow> qubo" where
  "outcome t Q = (case t Q of Inr Q' \<Rightarrow> Q' | Inl e \<Rightarrow> Q)"

text \<open>\<^verbatim>\<open>Q.get(p, 0)\<close> on the finished dictionary.\<close>

definition qubo_coeff :: "string \<Rightarrow> string \<times> string \<Rightarrow> error + int" where
  "qubo_coeff sequence p = bind_e (qubo sequence) (\<lambda>Q. Inr (coeff Q p))"

text \<open>The coordinates a bead may occupy, in the order of the two inner loops.\<close>

definition bead_sites :: "nat \<Rightarrow> nat \<Rightarrow> (nat \<times> nat) list" where
  "bead_sites L i = [(j, k). j \<leftarrow> [0..<L], k \<leftarrow> [0..<L], site_ok i j k]"

section \<open>Supporting lemmas\<close>

subsection \<open>Names are injective and parse back\<close>

lemma of_char_digit_char: "d < 10 \<Longrightarrow> (of_char (digit_char d) :: nat) = 48 + d"
  by (simp add: digit_char_def)

lemma is_digit_digit_char: "d < 10 \<Longrightarrow> is_digit (digit_char d)"
  by (simp add: is_digit_def of_char_digit_char)

lemma str_nat_digits: "c \<in> set (str_nat n) \<Longrightarrow> is_digit c"
proof (induction n arbitrary: c rule: str_nat.induct)
  case (1 n)
  show ?case
  proof (cases "n < 10")
    case True
    with "1.prems" show ?thesis
      by (simp add: str_nat.simps [of n] is_digit_digit_char)
  next
    case False
    with "1.prems" "1.IH" show ?thesis
      by (auto simp: str_nat.simps [of n] is_digit_digit_char)
  qed
qed

lemma str_nat_not_Nil: "str_nat n \<noteq> []"
  by (subst str_nat.simps) simp

lemma digits_value_snoc: "digits_value (ds @ [c]) = 10 * digits_value ds + (of_char c - 48)"
  by (simp add: digits_value_def)

lemma digits_value_str_nat: "digits_value (str_nat n) = n"
proof (induction n rule: str_nat.induct)
  case (1 n)
  show ?case
  proof (cases "n < 10")
    case True
    then show ?thesis
      by (simp add: str_nat.simps [of n] digits_value_def of_char_digit_char)
  next
    case False
    with "1.IH" show ?thesis
      by (simp add: str_nat.simps [of n] digits_value_snoc of_char_digit_char)
  qed
qed

lemma str_nat_inj: "str_nat m = str_nat n \<longleftrightarrow> m = n"
  by (metis digits_value_str_nat)

lemma underscore_not_digit: "\<not> is_digit CHR ''_''"
  by (simp add: is_digit_def)

lemma underscore_notin_str_nat: "CHR ''_'' \<notin> set (str_nat n)"
  using str_nat_digits underscore_not_digit by blast

lemma split_not_Nil: "split sep s \<noteq> []"
  by (induction s) (auto split: list.splits)

lemma split_no_sep: "sep \<notin> set w \<Longrightarrow> split sep w = [w]"
  by (induction w) (auto split: list.splits)

lemma split_append_sep: "sep \<notin> set w \<Longrightarrow> split sep (w @ sep # r) = w # split sep r"
  by (induction w) (auto split: list.splits)

lemma split_var_name:
  "split CHR ''_'' (var_name i j k) = [''x'', str_nat i, str_nat j, str_nat k]"
proof -
  have "var_name i j k = ''x'' @ CHR ''_'' # (str_nat i @ CHR ''_'' # (str_nat j @ CHR ''_'' # str_nat k))"
    by (simp add: var_name_def)
  then show ?thesis
    by (simp only: split_append_sep split_no_sep underscore_notin_str_nat not_False_eq_True)
       (simp add: split_append_sep split_no_sep underscore_notin_str_nat)
qed

lemma var_name_inj [simp]: "var_name i j k = var_name i' j' k' \<longleftrightarrow> i = i' \<and> j = j' \<and> k = k'"
proof
  assume "var_name i j k = var_name i' j' k'"
  then have "split CHR ''_'' (var_name i j k) = split CHR ''_'' (var_name i' j' k')"
    by simp
  then show "i = i' \<and> j = j' \<and> k = k'"
    by (simp add: split_var_name str_nat_inj)
qed simp

lemma is_digit_not_space: "is_digit c \<Longrightarrow> \<not> is_space c"
  by (auto simp: is_digit_def is_space_def)

lemma strip_digits: "ds \<noteq> [] \<Longrightarrow> list_all is_digit ds \<Longrightarrow> strip ds = ds"
proof -
  assume ne: "ds \<noteq> []" and dg: "list_all is_digit ds"
  from ne dg have h: "\<not> is_space (hd ds)"
    by (cases ds) (auto simp: is_digit_not_space)
  from ne dg have l: "\<not> is_space (hd (rev ds))"
    by (cases ds rule: rev_cases) (auto simp: is_digit_not_space)
  from ne h have "dropWhile is_space ds = ds"
    by (cases ds) auto
  moreover from ne l have "dropWhile is_space (rev ds) = rev ds"
    by (cases "rev ds") auto
  ultimately show ?thesis
    by (simp add: strip_def)
qed

lemma py_int_str_nat: "py_int (str_nat n) = Inr (int n)"
proof -
  have dg: "list_all is_digit (str_nat n)"
    by (simp add: list_all_iff str_nat_digits)
  have ne: "str_nat n \<noteq> []"
    by (rule str_nat_not_Nil)
  have st: "strip (str_nat n) = str_nat n"
    using ne dg by (rule strip_digits)
  have "is_digit (hd (str_nat n))"
    using ne by (intro str_nat_digits [of _ n] hd_in_set)
  then have sg: "hd (str_nat n) \<noteq> CHR ''-''" "hd (str_nat n) \<noteq> CHR ''+''"
    by (auto simp: is_digit_def)
  show ?thesis
    by (simp add: py_int_def st sg ne dg digits_value_str_nat Let_def)
qed

subsection \<open>The loops as lists of writes\<close>

text \<open>Both ways of accumulating into the dictionary are the same operation.\<close>

lemma add_pair_eq: "add_pair Q p v = add_get Q p v"
  by (auto simp: add_pair_def add_get_def dict_get_default_def split: option.splits)

lemma accum_Nil [simp]: "accum [] Q = Q"
  by (simp add: accum_def)

lemma accum_Cons [simp]: "accum ((p, v) # cs) Q = accum cs (add_get Q p v)"
  by (simp add: accum_def)

lemma accum_append [simp]: "accum (cs @ ds) Q = accum ds (accum cs Q)"
  by (simp add: accum_def)

text \<open>
  A loop whose body, at every element, succeeds and makes a list of writes makes the
  concatenation of these lists: this is how each loop nest is flattened, one level at a
  time.
\<close>

lemma for_each_accum:
  assumes "\<And>x Q. x \<in> set xs \<Longrightarrow> body x Q = Inr (accum (h x) Q)"
  shows "for_each xs body Q = Inr (accum (concat (map h xs)) Q)"
  using assms by (induction xs arbitrary: Q) simp_all

lemma collect_ok:
  assumes "\<And>x. x \<in> set xs \<Longrightarrow> e x = Inr (g x)"
  shows "collect xs e = Inr (map g xs)"
  using assms by (induction xs) simp_all

lemma dict_of_graph:
  "fold (\<lambda>(k, v) d. d(k \<mapsto> v)) (map (\<lambda>x. (x, g x)) xs) d =
     (\<lambda>x. if x \<in> set xs then Some (g x) else d x)"
  by (induction xs arbitrary: d) (auto simp: fun_eq_iff)

lemma variable_items_keys:
  "variable_items sequence = map (\<lambda>x. (x, case x of (i, j, k) \<Rightarrow> var_name i j k)) (variable_keys sequence)"
  by (simp add: variable_items_def variable_keys_def map_concat o_def if_distrib [of "map _"] cong: if_cong)

lemma variables_eq:
  "variables sequence (i, j, k) =
     (if i < N_of sequence \<and> j < L_of sequence \<and> k < L_of sequence \<and> site_ok i j k
      then Some (var_name i j k) else None)"
  by (auto simp: variables_def dict_of_def variable_items_keys dict_of_graph variable_keys_def)

lemma dict_get_variables:
  "i < N_of sequence \<Longrightarrow> j < L_of sequence \<Longrightarrow> k < L_of sequence \<Longrightarrow> site_ok i j k \<Longrightarrow>
   dict_get (variables sequence) (i, j, k) = Inr (var_name i j k)"
  by (simp add: dict_get_def variables_eq)

lemma interaction_at_eq:
  "f < N_of sequence \<Longrightarrow> fp < N_of sequence \<Longrightarrow>
   interaction_at sequence f fp = Inr (interaction (sequence ! f) (sequence ! fp))"
  by (simp add: interaction_at_def seq_get_def N_of_def)

lemma term1_site_accum:
  assumes "f < N_of sequence" "fp < N_of sequence" "j < L_of sequence" "k < L_of sequence"
    "jp < L_of sequence" "kp < L_of sequence" "sequence ! f = CHR ''H''" "sequence ! fp = CHR ''H''"
  shows "term1_site sequence f fp j k jp kp Q =
     Inr (accum [((var_name f j k, var_name fp jp kp), - 1). neighbours j k jp kp,
                   site_ok f j k \<and> site_ok fp jp kp] Q)"
  using assms
  by (simp add: term1_site_def dict_get_variables interaction_at_eq interaction_def add_pair_eq)

lemma interaction_ne0: "interaction a b \<noteq> 0 \<longleftrightarrow> a = CHR ''H'' \<and> b = CHR ''H''"
  by (simp add: interaction_def)

lemma term1_inner:
  assumes "f < N_of sequence" "fp < N_of sequence"
    "sequence ! f = CHR ''H''" "sequence ! fp = CHR ''H''"
  shows "for_each [0..<L_of sequence] (\<lambda>j.
         for_each [0..<L_of sequence] (\<lambda>k.
         for_each [0..<L_of sequence] (\<lambda>jp.
         for_each [0..<L_of sequence] (\<lambda>kp.
           term1_site sequence f fp j k jp kp)))) Q =
     Inr (accum [((var_name f j k, var_name fp jp kp), - 1).
        j \<leftarrow> [0..<L_of sequence], k \<leftarrow> [0..<L_of sequence],
        jp \<leftarrow> [0..<L_of sequence], kp \<leftarrow> [0..<L_of sequence],
        neighbours j k jp kp, site_ok f j k \<and> site_ok fp jp kp] Q)"
  by (intro for_each_accum) (simp add: term1_site_accum assms)

lemma term1_accum: "term1 sequence Q = Inr (accum (contribs1 sequence) Q)"
  unfolding term1_def contribs1_def
proof (intro for_each_accum)
  fix f fp Q
  assume "f \<in> set [0..<N_of sequence]" "fp \<in> set [f + 2..<N_of sequence]"
  then have lt: "f < N_of sequence" "fp < N_of sequence"
    by simp_all
  show "bind_e (interaction_at sequence f fp) (\<lambda>v.
         if v \<noteq> 0 then
           for_each [0..<L_of sequence] (\<lambda>j.
           for_each [0..<L_of sequence] (\<lambda>k.
           for_each [0..<L_of sequence] (\<lambda>jp.
           for_each [0..<L_of sequence] (\<lambda>kp.
             term1_site sequence f fp j k jp kp)))) Q
         else Inr Q) =
       Inr (accum [((var_name f j k, var_name fp jp kp), - 1).
        sequence ! f = CHR ''H'' \<and> sequence ! fp = CHR ''H'',
        j \<leftarrow> [0..<L_of sequence], k \<leftarrow> [0..<L_of sequence],
        jp \<leftarrow> [0..<L_of sequence], kp \<leftarrow> [0..<L_of sequence],
        neighbours j k jp kp, site_ok f j k \<and> site_ok fp jp kp] Q)"
  proof (cases "sequence ! f = CHR ''H'' \<and> sequence ! fp = CHR ''H''")
    case True
    then show ?thesis
      using lt by (simp add: interaction_at_eq interaction_ne0 term1_inner)
  next
    case False
    then have c: "(sequence ! f = CHR ''H'' \<and> sequence ! fp = CHR ''H'') = False"
      by simp
    show ?thesis
      using lt by (simp add: interaction_at_eq interaction_ne0 c)
  qed
qed

lemma concat_map_Nil: "concat (map (\<lambda>x. []) xs) = []"
  by (induction xs) simp_all

lemma for_each_add_get:
  assumes "\<And>x Q. x \<in> set xs \<Longrightarrow> body x Q = Inr (add_get Q (key x) v)"
  shows "for_each xs body Q = Inr (accum (map (\<lambda>x. (key x, v)) xs) Q)"
proof -
  have "for_each xs body Q = Inr (accum (concat (map (\<lambda>x. [(key x, v)]) xs)) Q)"
    by (rule for_each_accum) (simp add: assms)
  also have "concat (map (\<lambda>x. [(key x, v)]) xs) = map (\<lambda>x. (key x, v)) xs"
    by (induction xs) simp_all
  finally show ?thesis .
qed

lemma one_site_eq:
  assumes "i < N_of sequence"
  shows "one_site sequence i j k =
     Inr [var_name i jp kp. jp \<leftarrow> [0..<L_of sequence], kp \<leftarrow> [0..<L_of sequence],
            site_ok i jp kp \<and> (jp, kp) \<noteq> (j, k)]"
proof -
  have "one_site sequence i j k =
     Inr (map (\<lambda>(jp, kp). var_name i jp kp)
       [(jp, kp). jp \<leftarrow> [0..<L_of sequence], kp \<leftarrow> [0..<L_of sequence],
            site_ok i jp kp \<and> (jp, kp) \<noteq> (j, k)])"
    unfolding one_site_def
    by (rule collect_ok) (auto simp: dict_get_variables assms)
  then show ?thesis
    by (simp add: map_concat o_def if_distrib [of "map _"] cong: if_cong)
qed

lemma term2_site:
  assumes "i < N_of sequence" "j < L_of sequence" "k < L_of sequence" "site_ok i j k"
  shows "bind_e (one_site sequence i j k) (\<lambda>vars.
           for_each vars (\<lambda>var Q.
             bind_e (dict_get (variables sequence) (i, j, k)) (\<lambda>a.
             Inr (add_get Q (a, var) 2))) Q) =
     Inr (accum [((var_name i j k, var_name i jp kp), 2).
        jp \<leftarrow> [0..<L_of sequence], kp \<leftarrow> [0..<L_of sequence],
        site_ok i jp kp \<and> (jp, kp) \<noteq> (j, k)] Q)"
proof -
  have "for_each vars (\<lambda>var Q.
             bind_e (dict_get (variables sequence) (i, j, k)) (\<lambda>a.
             Inr (add_get Q (a, var) 2))) Q =
        Inr (accum (map (\<lambda>var. ((var_name i j k, var), 2)) vars) Q)" for vars
    by (rule for_each_add_get) (simp add: dict_get_variables assms)
  then show ?thesis
    by (simp add: one_site_eq assms map_concat o_def if_distrib [of "map _"] cong: if_cong)
qed

lemma term2_accum: "term2 sequence Q = Inr (accum (contribs2 sequence) Q)"
  unfolding term2_def contribs2_def
proof (intro for_each_accum)
  fix i j k Q
  assume "i \<in> set [0..<N_of sequence]" "j \<in> set [0..<L_of sequence]" "k \<in> set [0..<L_of sequence]"
  then have lt: "i < N_of sequence" "j < L_of sequence" "k < L_of sequence"
    by simp_all
  show "(if site_ok i j k then
         bind_e (one_site sequence i j k) (\<lambda>vars.
           for_each vars (\<lambda>var Q.
             bind_e (dict_get (variables sequence) (i, j, k)) (\<lambda>a.
             Inr (add_get Q (a, var) 2))) Q)
       else Inr Q) =
     Inr (accum [((var_name i j k, var_name i jp kp), 2).
        site_ok i j k,
        jp \<leftarrow> [0..<L_of sequence], kp \<leftarrow> [0..<L_of sequence],
        site_ok i jp kp \<and> (jp, kp) \<noteq> (j, k)] Q)"
    using lt by (simp add: term2_site)
qed

lemma term4_site:
  assumes "i < N_of sequence - 1" "j < L_of sequence" "k < L_of sequence" "site_ok i j k"
  shows "(let pnp = possible_next_positions sequence i j k in
          if pnp \<noteq> [] then
            bind_e (collect pnp (\<lambda>(jp, kp). dict_get (variables sequence) (i + 1, jp, kp)))
              (\<lambda>next_bead_vars.
                for_each next_bead_vars (\<lambda>next_var Q.
                  bind_e (dict_get (variables sequence) (i, j, k)) (\<lambda>a.
                  Inr (add_get Q (a, next_var) (- 3)))) Q)
          else Inr Q) =
     Inr (accum [((var_name i j k, var_name (i + 1) jp kp), - 3).
        jp \<leftarrow> [0..<L_of sequence], kp \<leftarrow> [0..<L_of sequence],
        neighbours j k jp kp \<and> site_ok (i + 1) jp kp] Q)"
proof -
  let ?pnp = "possible_next_positions sequence i j k"
  have i: "i < N_of sequence" "i + 1 < N_of sequence" "Suc i < N_of sequence"
    using assms(1) by simp_all
  have c: "collect ?pnp (\<lambda>(jp, kp). dict_get (variables sequence) (i + 1, jp, kp)) =
     Inr (map (\<lambda>(jp, kp). var_name (i + 1) jp kp) ?pnp)"
    by (rule collect_ok) (auto simp: possible_next_positions_def dict_get_variables i)
  have f: "for_each vars (\<lambda>next_var Q.
                  bind_e (dict_get (variables sequence) (i, j, k)) (\<lambda>a.
                  Inr (add_get Q (a, next_var) (- 3)))) Q =
        Inr (accum (map (\<lambda>var. ((var_name i j k, var), - 3)) vars) Q)" for vars
    by (rule for_each_add_get) (simp add: dict_get_variables assms i)
  let ?cs = "[((var_name i j k, var_name (i + 1) jp kp), - 3 :: int).
        jp \<leftarrow> [0..<L_of sequence], kp \<leftarrow> [0..<L_of sequence],
        neighbours j k jp kp \<and> site_ok (i + 1) jp kp]"
  have m: "map (\<lambda>var. ((var_name i j k, var), - 3)) (map (\<lambda>(jp, kp). var_name (i + 1) jp kp) ?pnp) = ?cs"
    by (simp add: possible_next_positions_def map_concat o_def if_distrib [of "map _"] cong: if_cong)
  show ?thesis
  proof (cases "?pnp = []")
    case True
    with m have "?cs = []"
      by simp
    with True show ?thesis
      by (simp only: Let_def if_False if_True not_False_eq_True not_True_eq_False simp_thms accum_Nil)
  next
    case False
    have "bind_e (collect ?pnp (\<lambda>(jp, kp). dict_get (variables sequence) (i + 1, jp, kp)))
              (\<lambda>next_bead_vars.
                for_each next_bead_vars (\<lambda>next_var Q.
                  bind_e (dict_get (variables sequence) (i, j, k)) (\<lambda>a.
                  Inr (add_get Q (a, next_var) (- 3)))) Q) = Inr (accum ?cs Q)"
      by (simp only: c bind_e.simps f m)
    with False show ?thesis
      by (simp only: Let_def if_True not_False_eq_True)
  qed
qed

lemma term4_accum: "term4 sequence Q = Inr (accum (contribs4 sequence) Q)"
  unfolding term4_def contribs4_def
proof (intro for_each_accum)
  fix i j k Q
  assume "i \<in> set [0..<N_of sequence - 1]" "j \<in> set [0..<L_of sequence]" "k \<in> set [0..<L_of sequence]"
  then have lt: "i < N_of sequence - 1" "j < L_of sequence" "k < L_of sequence"
    by simp_all
  show "(if site_ok i j k then
         (let pnp = possible_next_positions sequence i j k in
          if pnp \<noteq> [] then
            bind_e (collect pnp (\<lambda>(jp, kp). dict_get (variables sequence) (i + 1, jp, kp)))
              (\<lambda>next_bead_vars.
                for_each next_bead_vars (\<lambda>next_var Q.
                  bind_e (dict_get (variables sequence) (i, j, k)) (\<lambda>a.
                  Inr (add_get Q (a, next_var) (- 3)))) Q)
          else Inr Q)
       else Inr Q) =
     Inr (accum [((var_name i j k, var_name (i + 1) jp kp), - 3).
        site_ok i j k,
        jp \<leftarrow> [0..<L_of sequence], kp \<leftarrow> [0..<L_of sequence],
        neighbours j k jp kp \<and> site_ok (i + 1) jp kp] Q)"
    using lt by (simp add: term4_site del: One_nat_def)
qed

lemma beads_eq: "beads sequence j k = Inr (bead_names sequence j k)"
  unfolding beads_def bead_names_def bead_ids_def
  by (rule collect_ok) (auto simp: dict_get_def variables_eq split: if_splits)

lemma term3_site:
  "for_each [0..<length bs] (\<lambda>b1.
           for_each [b1 + 1..<length bs] (\<lambda>b2 Q.
             bind_e (seq_get bs b1) (\<lambda>x.
             bind_e (seq_get bs b2) (\<lambda>y.
             Inr (add_get Q (x, y) 10))))) Q =
   Inr (accum [((bs ! b1, bs ! b2), 10). b1 \<leftarrow> [0..<length bs], b2 \<leftarrow> [b1 + 1..<length bs]] Q)"
proof (rule for_each_accum)
  fix b1 Q
  assume b1: "b1 \<in> set [0..<length bs]"
  have "for_each [b1 + 1..<length bs] (\<lambda>b2 Q.
             bind_e (seq_get bs b1) (\<lambda>x.
             bind_e (seq_get bs b2) (\<lambda>y.
             Inr (add_get Q (x, y) 10)))) Q =
        Inr (accum (map (\<lambda>b2. ((bs ! b1, bs ! b2), 10)) [b1 + 1..<length bs]) Q)"
    using b1 by (intro for_each_add_get) (simp add: seq_get_def)
  then show "for_each [b1 + 1..<length bs] (\<lambda>b2 Q.
             bind_e (seq_get bs b1) (\<lambda>x.
             bind_e (seq_get bs b2) (\<lambda>y.
             Inr (add_get Q (x, y) 10)))) Q =
        Inr (accum [((bs ! b1, bs ! b2), 10). b2 \<leftarrow> [b1 + 1..<length bs]] Q)"
    by simp
qed

lemma term3_accum: "term3 sequence Q = Inr (accum (contribs3 sequence) Q)"
  unfolding term3_def contribs3_def
proof (intro for_each_accum)
  fix j k Q
  let ?bs = "bead_names sequence j k"
  show "bind_e (beads sequence j k) (\<lambda>bs.
         if length bs > 1 then
           for_each [0..<length bs] (\<lambda>b1.
           for_each [b1 + 1..<length bs] (\<lambda>b2 Q.
             bind_e (seq_get bs b1) (\<lambda>x.
             bind_e (seq_get bs b2) (\<lambda>y.
             Inr (add_get Q (x, y) 10))))) Q
         else Inr Q) =
     Inr (accum [((?bs ! b1, ?bs ! b2), 10). b1 \<leftarrow> [0..<length ?bs], b2 \<leftarrow> [b1 + 1..<length ?bs]] Q)"
  proof (cases "length ?bs > 1")
    case True
    then show ?thesis
      by (simp add: beads_eq term3_site del: One_nat_def)
  next
    case False
    then show ?thesis
      by (simp add: beads_eq concat_map_Nil del: One_nat_def)
  qed
qed

subsection \<open>Every key is written once\<close>

lemma coeff_add_get: "coeff (add_get Q p v) q = (if q = p then coeff Q p + v else coeff Q q)"
  by (simp add: coeff_def add_get_def dict_get_default_def)

lemma add_get_apply: "add_get Q p v q = (if q = p then Some (coeff Q p + v) else Q q)"
  by (simp add: coeff_def add_get_def)

lemma accum_distinct:
  assumes "distinct (map fst cs)" "\<forall>c \<in> set cs. snd c = v"
  shows "accum cs Q = (\<lambda>p. if p \<in> fst ` set cs then Some (coeff Q p + v) else Q p)"
  using assms
proof (induction cs arbitrary: Q)
  case Nil
  then show ?case by simp
next
  case (Cons c cs)
  obtain p w where c: "c = (p, w)"
    by (cases c)
  with Cons.prems have w: "w = v" and p: "p \<notin> fst ` set cs"
    and d: "distinct (map fst cs)" and s: "\<forall>c \<in> set cs. snd c = v"
    by auto
  have "accum (c # cs) Q = accum cs (add_get Q p v)"
    by (simp add: c w)
  also have "\<dots> = (\<lambda>q. if q \<in> fst ` set cs then Some (coeff (add_get Q p v) q + v) else add_get Q p v q)"
    by (rule Cons.IH [OF d s])
  also have "\<dots> = (\<lambda>q. if q \<in> fst ` set (c # cs) then Some (coeff Q q + v) else Q q)"
    using p by (auto simp: fun_eq_iff coeff_add_get c add_get_apply)
  finally show ?case .
qed

lemma distinct_map_concat_map:
  assumes "distinct xs"
    and "\<And>x. x \<in> set xs \<Longrightarrow> distinct (map f (g x))"
    and "\<And>x y. x \<in> set xs \<Longrightarrow> y \<in> set xs \<Longrightarrow> x \<noteq> y \<Longrightarrow> f ` set (g x) \<inter> f ` set (g y) = {}"
  shows "distinct (map f (concat (map g xs)))"
  using assms
proof (induction xs)
  case Nil
  then show ?case by simp
next
  case (Cons x xs)
  have "f ` set (g x) \<inter> f ` (\<Union>y\<in>set xs. set (g y)) = {}"
    using Cons.prems(1) Cons.prems(3) [of x] by fastforce
  with Cons show ?case
    by (simp add: image_UN)
qed

lemma distinct_map_if:
  "(c \<Longrightarrow> distinct (map f xs)) \<Longrightarrow> distinct (map f (if c then xs else []))"
  by simp

lemma keys_contribs1: "fst ` set (contribs1 sequence) = keys1 sequence"
  unfolding contribs1_def keys1_def
  by (auto simp: image_iff) (force+)?

lemma distinct_contribs1: "distinct (map fst (contribs1 sequence))"
  unfolding contribs1_def
  apply (intro distinct_map_concat_map distinct_map_if distinct_upt)
  apply (auto simp: image_iff)
  done

lemma snd_contribs1: "\<forall>c \<in> set (contribs1 sequence). snd c = - 1"
  unfolding contribs1_def by auto

lemma keys_contribs2: "fst ` set (contribs2 sequence) = keys2 sequence"
  unfolding contribs2_def keys2_def
  by (auto simp: image_iff) (force+)?

lemma distinct_contribs2: "distinct (map fst (contribs2 sequence))"
  unfolding contribs2_def
  apply (intro distinct_map_concat_map distinct_map_if distinct_upt)
  apply (auto simp: image_iff)
  done

lemma snd_contribs2: "\<forall>c \<in> set (contribs2 sequence). snd c = 2"
  unfolding contribs2_def by auto

lemma keys_contribs4: "fst ` set (contribs4 sequence) = keys4 sequence"
  unfolding contribs4_def keys4_def
  by (auto simp: image_iff) (force+)?

lemma distinct_contribs4: "distinct (map fst (contribs4 sequence))"
  unfolding contribs4_def
  apply (intro distinct_map_concat_map distinct_map_if distinct_upt)
  apply (auto simp: image_iff)
  done

lemma snd_contribs4: "\<forall>c \<in> set (contribs4 sequence). snd c = - 3"
  unfolding contribs4_def by auto

lemma concat_map_if_filter: "concat (map (\<lambda>x. if P x then [x] else []) xs) = filter P xs"
  by (induction xs) simp_all

lemma bead_ids_filter:
  "bead_ids sequence j k =
     filter (\<lambda>i. j < L_of sequence \<and> k < L_of sequence \<and> site_ok i j k) [0..<N_of sequence]"
  unfolding bead_ids_def concat_map_if_filter
  by (rule filter_cong) (auto simp: dom_def variables_eq)

lemma set_bead_ids:
  "set (bead_ids sequence j k) =
     {i. i < N_of sequence \<and> j < L_of sequence \<and> k < L_of sequence \<and> site_ok i j k}"
  by (auto simp: bead_ids_filter)

lemma sorted_bead_ids: "sorted_wrt (<) (bead_ids sequence j k)"
  by (simp add: bead_ids_filter sorted_wrt_filter)

lemma length_bead_names [simp]: "length (bead_names sequence j k) = length (bead_ids sequence j k)"
  by (simp add: bead_names_def)

lemma nth_bead_names:
  "b < length (bead_ids sequence j k) \<Longrightarrow>
   bead_names sequence j k ! b = var_name (bead_ids sequence j k ! b) j k"
  by (simp add: bead_names_def)

lemma distinct_bead_names: "distinct (bead_names sequence j k)"
  by (simp add: bead_names_def distinct_map inj_on_def bead_ids_filter)

lemma distinct_pairs:
  assumes "distinct bs"
  shows "distinct (map fst [((bs ! b1, bs ! b2), v). b1 \<leftarrow> [0..<length bs], b2 \<leftarrow> [b1 + 1..<length bs]])"
proof (intro distinct_map_concat_map distinct_upt)
  fix b1
  assume "b1 \<in> set [0..<length bs]"
  have "inj_on (\<lambda>b2. (bs ! b1, bs ! b2)) {b1 + 1..<length bs}"
    using assms by (auto simp: inj_on_def nth_eq_iff_index_eq)
  then show "distinct (map fst (map (\<lambda>b2. ((bs ! b1, bs ! b2), v)) [b1 + 1..<length bs]))"
    by (simp add: distinct_map o_def)
next
  fix b1 b1'
  assume "b1 \<in> set [0..<length bs]" "b1' \<in> set [0..<length bs]" "b1 \<noteq> b1'"
  then show "fst ` set (map (\<lambda>b2. ((bs ! b1, bs ! b2), v)) [b1 + 1..<length bs]) \<inter>
        fst ` set (map (\<lambda>b2. ((bs ! b1', bs ! b2), v)) [b1' + 1..<length bs]) = {}"
    using assms by (auto simp: nth_eq_iff_index_eq)
qed

lemma set_pairs:
  "fst ` set [((bs ! b1, bs ! b2), v). b1 \<leftarrow> [0..<length bs], b2 \<leftarrow> [b1 + 1..<length bs]] =
     {(bs ! b1, bs ! b2) | b1 b2. b1 < b2 \<and> b2 < length bs}"
  by (auto simp: image_iff) (force+)?

lemma keys_site3:
  "{(bead_names sequence j k ! b1, bead_names sequence j k ! b2) | b1 b2.
      b1 < b2 \<and> b2 < length (bead_names sequence j k)} =
   {(var_name i1 j k, var_name i2 j k) | i1 i2.
      i1 < i2 \<and> i2 < N_of sequence \<and> j < L_of sequence \<and> k < L_of sequence \<and>
      site_ok i1 j k \<and> site_ok i2 j k}" (is "?A = ?B")
proof (intro equalityI subsetI)
  let ?ids = "bead_ids sequence j k"
  fix p assume "p \<in> ?A"
  then obtain b1 b2 where b: "b1 < b2" "b2 < length ?ids"
    and p: "p = (bead_names sequence j k ! b1, bead_names sequence j k ! b2)"
    by auto
  from b have lt: "?ids ! b1 < ?ids ! b2"
    using sorted_bead_ids [of sequence j k] by (simp add: sorted_wrt_nth_less)
  from b have "?ids ! b1 \<in> set ?ids" "?ids ! b2 \<in> set ?ids"
    by simp_all
  then have "?ids ! b1 < N_of sequence \<and> ?ids ! b2 < N_of sequence \<and> j < L_of sequence \<and>
      k < L_of sequence \<and> site_ok (?ids ! b1) j k \<and> site_ok (?ids ! b2) j k"
    unfolding set_bead_ids by simp
  with lt p b show "p \<in> ?B"
    by (auto simp: nth_bead_names)
next
  let ?ids = "bead_ids sequence j k"
  fix p assume "p \<in> ?B"
  then obtain i1 i2 where i: "i1 < i2" "i1 \<in> set ?ids" "i2 \<in> set ?ids"
    and p: "p = (var_name i1 j k, var_name i2 j k)"
    unfolding set_bead_ids by auto
  from i obtain b1 b2 where b: "b1 < length ?ids" "?ids ! b1 = i1" "b2 < length ?ids" "?ids ! b2 = i2"
    by (auto simp: in_set_conv_nth)
  have "b1 < b2"
  proof (rule ccontr)
    assume "\<not> b1 < b2"
    then have "b2 \<le> b1" by simp
    then have "?ids ! b2 \<le> ?ids ! b1"
      using sorted_bead_ids [of sequence j k] b(1)
      by (cases "b2 = b1") (auto simp: sorted_wrt_nth_less less_imp_le)
    with b i(1) show False by simp
  qed
  moreover have "p = (bead_names sequence j k ! b1, bead_names sequence j k ! b2)"
    using b p by (simp add: nth_bead_names)
  ultimately show "p \<in> ?A"
    using b(3) by auto
qed

lemma keys_contribs3: "fst ` set (contribs3 sequence) = keys3 sequence"
proof -
  have "fst ` set (contribs3 sequence) =
    (\<Union>j \<in> {0..<L_of sequence}. \<Union>k \<in> {0..<L_of sequence}.
       fst ` set [((bead_names sequence j k ! b1, bead_names sequence j k ! b2), 10 :: int).
          b1 \<leftarrow> [0..<length (bead_names sequence j k)],
          b2 \<leftarrow> [b1 + 1..<length (bead_names sequence j k)]])"
    unfolding contribs3_def by (simp add: image_UN)
  also have "\<dots> = keys3 sequence"
    unfolding set_pairs keys_site3 keys3_def by auto
  finally show ?thesis .
qed

lemma distinct_contribs3: "distinct (map fst (contribs3 sequence))"
proof -
  let ?site = "\<lambda>j k. [((bead_names sequence j k ! b1, bead_names sequence j k ! b2), 10 :: int).
          b1 \<leftarrow> [0..<length (bead_names sequence j k)],
          b2 \<leftarrow> [b1 + 1..<length (bead_names sequence j k)]]"
  have site: "fst ` set (?site j k) =
     {(var_name i1 j k, var_name i2 j k) | i1 i2.
        i1 < i2 \<and> i2 < N_of sequence \<and> j < L_of sequence \<and> k < L_of sequence \<and>
        site_ok i1 j k \<and> site_ok i2 j k}" for j k
    unfolding set_pairs keys_site3 ..
  have "distinct (map fst (concat (map (\<lambda>j. concat (map (?site j) [0..<L_of sequence]))
          [0..<L_of sequence])))"
  proof (rule distinct_map_concat_map)
    show "distinct [0..<L_of sequence]" by simp
  next
    fix j
    show "distinct (map fst (concat (map (?site j) [0..<L_of sequence])))"
    proof (rule distinct_map_concat_map)
      show "distinct [0..<L_of sequence]" by simp
    next
      fix k
      show "distinct (map fst (?site j k))"
        by (rule distinct_pairs) (rule distinct_bead_names)
    next
      fix k k' :: nat
      assume "k \<noteq> k'"
      then show "fst ` set (?site j k) \<inter> fst ` set (?site j k') = {}"
        unfolding site by auto
    qed
  next
    fix j j' :: nat
    assume "j \<noteq> j'"
    then have "(\<Union>k \<in> {0..<L_of sequence}. fst ` set (?site j k)) \<inter>
       (\<Union>k \<in> {0..<L_of sequence}. fst ` set (?site j' k)) = {}"
      unfolding site by auto
    then show "fst ` set (concat (map (?site j) [0..<L_of sequence])) \<inter>
        fst ` set (concat (map (?site j') [0..<L_of sequence])) = {}"
      by (simp only: set_concat set_map image_UN image_image SUP_image o_def set_upt) 
  qed
  then show ?thesis
    by (simp add: contribs3_def)
qed

lemma snd_contribs3: "\<forall>c \<in> set (contribs3 sequence). snd c = 10"
  unfolding contribs3_def by auto

subsection \<open>The effect of each term and of the construction\<close>

lemma term1_result: "term1 sequence Q = Inr (bump (keys1 sequence) (- 1) Q)"
  unfolding term1_accum bump_def
  using accum_distinct [OF distinct_contribs1 snd_contribs1, of sequence Q]
  by (simp add: keys_contribs1)

lemma term2_result: "term2 sequence Q = Inr (bump (keys2 sequence) 2 Q)"
  unfolding term2_accum bump_def
  using accum_distinct [OF distinct_contribs2 snd_contribs2, of sequence Q]
  by (simp add: keys_contribs2)

lemma term3_result: "term3 sequence Q = Inr (bump (keys3 sequence) 10 Q)"
  unfolding term3_accum bump_def
  using accum_distinct [OF distinct_contribs3 snd_contribs3, of sequence Q]
  by (simp add: keys_contribs3)

lemma term4_result: "term4 sequence Q = Inr (bump (keys4 sequence) (- 3) Q)"
  unfolding term4_accum bump_def
  using accum_distinct [OF distinct_contribs4 snd_contribs4, of sequence Q]
  by (simp add: keys_contribs4)

lemma bump_apply: "bump K v Q p = (if p \<in> K then Some (coeff Q p + v) else Q p)"
  by (simp add: bump_def)

lemma coeff_bump: "coeff (bump K v Q) p = (if p \<in> K then coeff Q p + v else coeff Q p)"
  by (simp add: bump_def coeff_def dict_get_default_def)

lemma dom_bump: "dom (bump K v Q) = dom Q \<union> K"
  by (auto simp: bump_def dom_def)

lemma bump_commute: "bump K v (bump K' v' Q) = bump K' v' (bump K v Q)"
  by (auto simp: fun_eq_iff bump_apply coeff_bump)

lemma coeff_empty [simp]: "coeff Map.empty p = 0"
  by (simp add: coeff_def dict_get_default_def)

lemma neighbours_neq: "neighbours j k jp kp \<Longrightarrow> (j, k) \<noteq> (jp, kp)"
  by (auto simp: neighbours_def)

lemma site_ok_same_parity: "site_ok i1 j k \<Longrightarrow> site_ok i2 j k \<Longrightarrow> i1 < i2 \<Longrightarrow> i1 + 2 \<le> i2"
  unfolding site_ok_def by presburger

lemma keys12: "keys1 sequence \<inter> keys2 sequence = {}"
  by (auto simp: keys1_def keys2_def)

lemma keys13: "keys1 sequence \<inter> keys3 sequence = {}"
  by (auto simp: keys1_def keys3_def dest: neighbours_neq)

lemma keys14: "keys1 sequence \<inter> keys4 sequence = {}"
  by (auto simp: keys1_def keys4_def)

lemma keys23: "keys2 sequence \<inter> keys3 sequence = {}"
  by (auto simp: keys2_def keys3_def)

lemma keys24: "keys2 sequence \<inter> keys4 sequence = {}"
  by (auto simp: keys2_def keys4_def)

lemma keys34: "keys3 sequence \<inter> keys4 sequence = {}"
  by (auto simp: keys3_def keys4_def dest: neighbours_neq)

lemma qubo_result:
  "qubo sequence = Inr (bump (keys4 sequence) (- 3) (bump (keys3 sequence) 10
     (bump (keys2 sequence) 2 (bump (keys1 sequence) (- 1) Map.empty))))"
  by (simp add: qubo_def term1_result term2_result term3_result term4_result)

lemma qubo_result_apply:
  "qubo sequence = Inr (\<lambda>p.
     if p \<in> keys1 sequence then Some (- 1)
     else if p \<in> keys2 sequence then Some 2
     else if p \<in> keys3 sequence then Some 10
     else if p \<in> keys4 sequence then Some (- 3)
     else None)"
  unfolding qubo_result
  using keys12 [of sequence] keys13 [of sequence] keys14 [of sequence]
    keys23 [of sequence] keys24 [of sequence] keys34 [of sequence]
  by (auto simp: fun_eq_iff bump_apply coeff_bump)

section \<open>What each term writes\<close>

lemma keys1_iff:
  "p \<in> keys1 sequence \<longleftrightarrow>
     (\<exists>f fp j k jp kp. p = (var_name f j k, var_name fp jp kp) \<and>
        f + 2 \<le> fp \<and> fp < length sequence \<and>
        sequence ! f = CHR ''H'' \<and> sequence ! fp = CHR ''H'' \<and>
        j < length sequence div 2 + 1 \<and> k < length sequence div 2 + 1 \<and>
        jp < length sequence div 2 + 1 \<and> kp < length sequence div 2 + 1 \<and>
        \<bar>int j - int jp\<bar> + \<bar>int k - int kp\<bar> = 1 \<and>
        (j + k) mod 2 = f mod 2 \<and> (jp + kp) mod 2 = fp mod 2)"
  unfolding keys1_def N_of_def L_of_def neighbours_def site_ok_def by blast

lemma keys2_iff:
  "p \<in> keys2 sequence \<longleftrightarrow>
     (\<exists>i j k jp kp. p = (var_name i j k, var_name i jp kp) \<and>
        i < length sequence \<and>
        j < length sequence div 2 + 1 \<and> k < length sequence div 2 + 1 \<and>
        jp < length sequence div 2 + 1 \<and> kp < length sequence div 2 + 1 \<and>
        (j + k) mod 2 = i mod 2 \<and> (jp + kp) mod 2 = i mod 2 \<and> (j, k) \<noteq> (jp, kp))"
  unfolding keys2_def N_of_def L_of_def site_ok_def by blast

lemma keys3_iff:
  "p \<in> keys3 sequence \<longleftrightarrow>
     (\<exists>i1 i2 j k. p = (var_name i1 j k, var_name i2 j k) \<and>
        i1 < i2 \<and> i2 < length sequence \<and>
        j < length sequence div 2 + 1 \<and> k < length sequence div 2 + 1 \<and>
        (j + k) mod 2 = i1 mod 2 \<and> (j + k) mod 2 = i2 mod 2)"
  unfolding keys3_def N_of_def L_of_def site_ok_def by blast

lemma keys4_iff:
  "p \<in> keys4 sequence \<longleftrightarrow>
     (\<exists>i j k jp kp. p = (var_name i j k, var_name (i + 1) jp kp) \<and>
        i + 1 < length sequence \<and>
        j < length sequence div 2 + 1 \<and> k < length sequence div 2 + 1 \<and>
        jp < length sequence div 2 + 1 \<and> kp < length sequence div 2 + 1 \<and>
        (j + k) mod 2 = i mod 2 \<and>
        \<bar>int j - int jp\<bar> + \<bar>int k - int kp\<bar> = 1 \<and> (jp + kp) mod 2 = (i + 1) mod 2)"
  unfolding keys4_def N_of_def L_of_def neighbours_def site_ok_def by blast

lemma bump_changed: "bump K v Q p \<noteq> Q p \<Longrightarrow> p \<in> K"
  by (simp add: bump_apply split: if_splits)

text \<open>
  Claim C4. Term 1, run on any dictionary \<open>Q\<close>, returns a dictionary in which, for every
  pair of positions \<open>f\<close>, \<open>fp\<close> with \<open>fp \<ge> f + 2\<close> that both hold \<open>H\<close> and every pair of
  grid coordinates at Manhattan distance 1 with the parities of \<open>f\<close> and \<open>fp\<close>, the
  coefficient of \<open>(var(f,j,k), var(fp,jp,kp))\<close> is the old coefficient (0 when the key
  was absent) minus 1. When no two \<open>H\<close> residues are at sequence distance 2 or more, Term 1
  returns \<open>Q\<close> unchanged: it contributes no entry.
\<close>

theorem term1_contribution:
  "\<exists>Q'. term1 sequence Q = Inr Q' \<and>
     (\<forall>f fp j k jp kp.
        f + 2 \<le> fp \<and> fp < length sequence \<and>
        sequence ! f = CHR ''H'' \<and> sequence ! fp = CHR ''H'' \<and>
        j < length sequence div 2 + 1 \<and> k < length sequence div 2 + 1 \<and>
        jp < length sequence div 2 + 1 \<and> kp < length sequence div 2 + 1 \<and>
        \<bar>int j - int jp\<bar> + \<bar>int k - int kp\<bar> = 1 \<and>
        (j + k) mod 2 = f mod 2 \<and> (jp + kp) mod 2 = fp mod 2 \<longrightarrow>
        Q' (var_name f j k, var_name fp jp kp) =
          Some (coeff Q (var_name f j k, var_name fp jp kp) - 1)) \<and>
     ((\<forall>f fp. f + 2 \<le> fp \<and> fp < length sequence \<longrightarrow>
         \<not> (sequence ! f = CHR ''H'' \<and> sequence ! fp = CHR ''H'')) \<longrightarrow> Q' = Q)"
proof (rule exI [of _ "bump (keys1 sequence) (- 1) Q"], intro conjI allI impI)
  show "term1 sequence Q = Inr (bump (keys1 sequence) (- 1) Q)"
    by (rule term1_result)
next
  fix f fp j k jp kp
  assume "f + 2 \<le> fp \<and> fp < length sequence \<and>
        sequence ! f = CHR ''H'' \<and> sequence ! fp = CHR ''H'' \<and>
        j < length sequence div 2 + 1 \<and> k < length sequence div 2 + 1 \<and>
        jp < length sequence div 2 + 1 \<and> kp < length sequence div 2 + 1 \<and>
        \<bar>int j - int jp\<bar> + \<bar>int k - int kp\<bar> = 1 \<and>
        (j + k) mod 2 = f mod 2 \<and> (jp + kp) mod 2 = fp mod 2"
  then have "(var_name f j k, var_name fp jp kp) \<in> keys1 sequence"
    unfolding keys1_iff by blast
  then show "bump (keys1 sequence) (- 1) Q (var_name f j k, var_name fp jp kp) =
          Some (coeff Q (var_name f j k, var_name fp jp kp) - 1)"
    by (simp add: bump_apply)
next
  assume "\<forall>f fp. f + 2 \<le> fp \<and> fp < length sequence \<longrightarrow>
         \<not> (sequence ! f = CHR ''H'' \<and> sequence ! fp = CHR ''H'')"
  then have "keys1 sequence = {}"
    unfolding keys1_def N_of_def by blast
  then show "bump (keys1 sequence) (- 1) Q = Q"
    by (simp add: bump_def)
qed

theorem term1_contribution_witness:
  "(\<exists>Q'. term1 ''HPPH'' Map.empty = Inr Q' \<and> Q' (var_name 0 0 0, var_name 3 0 1) = Some (- 1)) \<and>
   term1 ''HHP'' Map.empty = Inr Map.empty"
proof
  obtain Q' where t: "term1 ''HPPH'' Map.empty = Inr Q'"
    and a: "\<And>f fp j k jp kp.
        f + 2 \<le> fp \<and> fp < length ''HPPH'' \<and>
        ''HPPH'' ! f = CHR ''H'' \<and> ''HPPH'' ! fp = CHR ''H'' \<and>
        j < length ''HPPH'' div 2 + 1 \<and> k < length ''HPPH'' div 2 + 1 \<and>
        jp < length ''HPPH'' div 2 + 1 \<and> kp < length ''HPPH'' div 2 + 1 \<and>
        \<bar>int j - int jp\<bar> + \<bar>int k - int kp\<bar> = 1 \<and>
        (j + k) mod 2 = f mod 2 \<and> (jp + kp) mod 2 = fp mod 2 \<Longrightarrow>
        Q' (var_name f j k, var_name fp jp kp) =
          Some (coeff Map.empty (var_name f j k, var_name fp jp kp) - 1)"
    using term1_contribution [of "''HPPH''" Map.empty] by blast
  have "Q' (var_name 0 0 0, var_name 3 0 1) =
      Some (coeff Map.empty (var_name 0 0 0, var_name 3 0 1) - 1)"
    by (rule a) simp
  with t show "\<exists>Q'. term1 ''HPPH'' Map.empty = Inr Q' \<and>
      Q' (var_name 0 0 0, var_name 3 0 1) = Some (- 1)"
    by simp
next
  obtain Q' where t: "term1 ''HHP'' Map.empty = Inr Q'"
    and b: "(\<forall>f fp. f + 2 \<le> fp \<and> fp < length ''HHP'' \<longrightarrow>
         \<not> (''HHP'' ! f = CHR ''H'' \<and> ''HHP'' ! fp = CHR ''H'')) \<Longrightarrow> Q' = Map.empty"
    using term1_contribution [of "''HHP''" Map.empty] by blast
  have "\<forall>f fp. f + 2 \<le> fp \<and> fp < length ''HHP'' \<longrightarrow>
         \<not> (''HHP'' ! f = CHR ''H'' \<and> ''HHP'' ! fp = CHR ''H'')"
  proof (intro allI impI)
    fix f fp :: nat
    assume "f + 2 \<le> fp \<and> fp < length ''HHP''"
    then have "fp = 2"
      by simp
    then show "\<not> (''HHP'' ! f = CHR ''H'' \<and> ''HHP'' ! fp = CHR ''H'')"
      by simp
  qed
  with b t show "term1 ''HHP'' Map.empty = Inr Map.empty"
    by simp
qed

text \<open>
  Claim C5. Term 4, run on any dictionary \<open>Q\<close>, returns a dictionary in which, for every
  consecutive bead pair \<open>(i, i + 1)\<close>, every coordinate \<open>(j,k)\<close> of the parity of \<open>i\<close> and
  every coordinate \<open>(jp,kp)\<close> of the grid at Manhattan distance 1 with the parity of
  \<open>i + 1\<close>, the coefficient of \<open>(var(i,j,k), var(i+1,jp,kp))\<close> is the old coefficient
  minus 3; every key whose entry differs from the one in \<open>Q\<close> is such a pair.
\<close>

theorem term4_contribution:
  "\<exists>Q'. term4 sequence Q = Inr Q' \<and>
     (\<forall>i j k jp kp.
        i + 1 < length sequence \<and>
        j < length sequence div 2 + 1 \<and> k < length sequence div 2 + 1 \<and>
        jp < length sequence div 2 + 1 \<and> kp < length sequence div 2 + 1 \<and>
        (j + k) mod 2 = i mod 2 \<and>
        \<bar>int j - int jp\<bar> + \<bar>int k - int kp\<bar> = 1 \<and> (jp + kp) mod 2 = (i + 1) mod 2 \<longrightarrow>
        Q' (var_name i j k, var_name (i + 1) jp kp) =
          Some (coeff Q (var_name i j k, var_name (i + 1) jp kp) - 3)) \<and>
     (\<forall>p. Q' p \<noteq> Q p \<longrightarrow>
        (\<exists>i j k jp kp. p = (var_name i j k, var_name (i + 1) jp kp) \<and>
           i + 1 < length sequence \<and>
           j < length sequence div 2 + 1 \<and> k < length sequence div 2 + 1 \<and>
           jp < length sequence div 2 + 1 \<and> kp < length sequence div 2 + 1 \<and>
           (j + k) mod 2 = i mod 2 \<and>
           \<bar>int j - int jp\<bar> + \<bar>int k - int kp\<bar> = 1 \<and> (jp + kp) mod 2 = (i + 1) mod 2))"
proof (rule exI [of _ "bump (keys4 sequence) (- 3) Q"], intro conjI allI impI)
  show "term4 sequence Q = Inr (bump (keys4 sequence) (- 3) Q)"
    by (rule term4_result)
next
  fix i j k jp kp
  assume "i + 1 < length sequence \<and>
        j < length sequence div 2 + 1 \<and> k < length sequence div 2 + 1 \<and>
        jp < length sequence div 2 + 1 \<and> kp < length sequence div 2 + 1 \<and>
        (j + k) mod 2 = i mod 2 \<and>
        \<bar>int j - int jp\<bar> + \<bar>int k - int kp\<bar> = 1 \<and> (jp + kp) mod 2 = (i + 1) mod 2"
  then have "(var_name i j k, var_name (i + 1) jp kp) \<in> keys4 sequence"
    unfolding keys4_iff by blast
  then show "bump (keys4 sequence) (- 3) Q (var_name i j k, var_name (i + 1) jp kp) =
          Some (coeff Q (var_name i j k, var_name (i + 1) jp kp) - 3)"
    by (simp add: bump_apply)
next
  fix p
  assume "bump (keys4 sequence) (- 3) Q p \<noteq> Q p"
  then have "p \<in> keys4 sequence"
    by (rule bump_changed)
  then show "\<exists>i j k jp kp. p = (var_name i j k, var_name (i + 1) jp kp) \<and>
           i + 1 < length sequence \<and>
           j < length sequence div 2 + 1 \<and> k < length sequence div 2 + 1 \<and>
           jp < length sequence div 2 + 1 \<and> kp < length sequence div 2 + 1 \<and>
           (j + k) mod 2 = i mod 2 \<and>
           \<bar>int j - int jp\<bar> + \<bar>int k - int kp\<bar> = 1 \<and> (jp + kp) mod 2 = (i + 1) mod 2"
    by (simp only: keys4_iff)
qed

theorem term4_contribution_witness:
  "\<exists>Q'. term4 ''HH'' Map.empty = Inr Q' \<and>
     Q' (var_name 0 0 0, var_name 1 0 1) = Some (- 3) \<and>
     Q' (var_name 1 0 1, var_name 0 0 0) = None"
proof -
  obtain Q' where t: "term4 ''HH'' Map.empty = Inr Q'"
    and a: "\<And>i j k jp kp.
        i + 1 < length ''HH'' \<and>
        j < length ''HH'' div 2 + 1 \<and> k < length ''HH'' div 2 + 1 \<and>
        jp < length ''HH'' div 2 + 1 \<and> kp < length ''HH'' div 2 + 1 \<and>
        (j + k) mod 2 = i mod 2 \<and>
        \<bar>int j - int jp\<bar> + \<bar>int k - int kp\<bar> = 1 \<and> (jp + kp) mod 2 = (i + 1) mod 2 \<Longrightarrow>
        Q' (var_name i j k, var_name (i + 1) jp kp) =
          Some (coeff Map.empty (var_name i j k, var_name (i + 1) jp kp) - 3)"
    and b: "\<And>p. Q' p \<noteq> Map.empty p \<Longrightarrow>
        (\<exists>i j k jp kp. p = (var_name i j k, var_name (i + 1) jp kp) \<and>
           i + 1 < length ''HH'' \<and>
           j < length ''HH'' div 2 + 1 \<and> k < length ''HH'' div 2 + 1 \<and>
           jp < length ''HH'' div 2 + 1 \<and> kp < length ''HH'' div 2 + 1 \<and>
           (j + k) mod 2 = i mod 2 \<and>
           \<bar>int j - int jp\<bar> + \<bar>int k - int kp\<bar> = 1 \<and> (jp + kp) mod 2 = (i + 1) mod 2)"
    using term4_contribution [of "''HH''" Map.empty] by blast
  have "Q' (var_name 0 0 0, var_name (0 + 1) 0 1) =
      Some (coeff Map.empty (var_name 0 0 0, var_name (0 + 1) 0 1) - 3)"
    by (rule a) simp
  then have 1: "Q' (var_name 0 0 0, var_name 1 0 1) = Some (- 3)"
    by simp
  have 2: "Q' (var_name 1 0 1, var_name 0 0 0) = None"
  proof (rule ccontr)
    assume "Q' (var_name 1 0 1, var_name 0 0 0) \<noteq> None"
    then have "\<exists>i j k jp kp.
           (var_name 1 0 1, var_name 0 0 0) = (var_name i j k, var_name (i + 1) jp kp) \<and>
           i + 1 < length ''HH'' \<and>
           j < length ''HH'' div 2 + 1 \<and> k < length ''HH'' div 2 + 1 \<and>
           jp < length ''HH'' div 2 + 1 \<and> kp < length ''HH'' div 2 + 1 \<and>
           (j + k) mod 2 = i mod 2 \<and>
           \<bar>int j - int jp\<bar> + \<bar>int k - int kp\<bar> = 1 \<and> (jp + kp) mod 2 = (i + 1) mod 2"
      by (intro b) simp
    then show False
      by auto
  qed
  from t 1 2 show ?thesis
    by blast
qed

text \<open>
  Claim C7. Term 2, run on any dictionary \<open>Q\<close>, returns a dictionary in which, for every
  bead \<open>i\<close> and every ordered pair of distinct coordinates of the parity of \<open>i\<close>, the
  coefficient of \<open>(var(i,j,k), var(i,jp,kp))\<close> is the old coefficient plus 2; every key
  whose entry differs from the one in \<open>Q\<close> pairs two variables of one bead.
\<close>

theorem term2_contribution:
  "\<exists>Q'. term2 sequence Q = Inr Q' \<and>
     (\<forall>i j k jp kp.
        i < length sequence \<and>
        j < length sequence div 2 + 1 \<and> k < length sequence div 2 + 1 \<and>
        jp < length sequence div 2 + 1 \<and> kp < length sequence div 2 + 1 \<and>
        (j + k) mod 2 = i mod 2 \<and> (jp + kp) mod 2 = i mod 2 \<and> (j, k) \<noteq> (jp, kp) \<longrightarrow>
        Q' (var_name i j k, var_name i jp kp) =
          Some (coeff Q (var_name i j k, var_name i jp kp) + 2)) \<and>
     (\<forall>p. Q' p \<noteq> Q p \<longrightarrow>
        (\<exists>i j k jp kp. p = (var_name i j k, var_name i jp kp) \<and>
           i < length sequence \<and>
           j < length sequence div 2 + 1 \<and> k < length sequence div 2 + 1 \<and>
           jp < length sequence div 2 + 1 \<and> kp < length sequence div 2 + 1 \<and>
           (j + k) mod 2 = i mod 2 \<and> (jp + kp) mod 2 = i mod 2 \<and> (j, k) \<noteq> (jp, kp)))"
proof (rule exI [of _ "bump (keys2 sequence) 2 Q"], intro conjI allI impI)
  show "term2 sequence Q = Inr (bump (keys2 sequence) 2 Q)"
    by (rule term2_result)
next
  fix i j k jp kp
  assume "i < length sequence \<and>
        j < length sequence div 2 + 1 \<and> k < length sequence div 2 + 1 \<and>
        jp < length sequence div 2 + 1 \<and> kp < length sequence div 2 + 1 \<and>
        (j + k) mod 2 = i mod 2 \<and> (jp + kp) mod 2 = i mod 2 \<and> (j, k) \<noteq> (jp, kp)"
  then have "(var_name i j k, var_name i jp kp) \<in> keys2 sequence"
    unfolding keys2_iff by blast
  then show "bump (keys2 sequence) 2 Q (var_name i j k, var_name i jp kp) =
          Some (coeff Q (var_name i j k, var_name i jp kp) + 2)"
    by (simp add: bump_apply)
next
  fix p
  assume "bump (keys2 sequence) 2 Q p \<noteq> Q p"
  then have "p \<in> keys2 sequence"
    by (rule bump_changed)
  then show "\<exists>i j k jp kp. p = (var_name i j k, var_name i jp kp) \<and>
           i < length sequence \<and>
           j < length sequence div 2 + 1 \<and> k < length sequence div 2 + 1 \<and>
           jp < length sequence div 2 + 1 \<and> kp < length sequence div 2 + 1 \<and>
           (j + k) mod 2 = i mod 2 \<and> (jp + kp) mod 2 = i mod 2 \<and> (j, k) \<noteq> (jp, kp)"
    by (simp only: keys2_iff)
qed

theorem term2_contribution_witness:
  "\<exists>Q'. term2 ''HH'' Map.empty = Inr Q' \<and>
     Q' (var_name 0 0 0, var_name 0 1 1) = Some 2 \<and>
     Q' (var_name 0 1 1, var_name 0 0 0) = Some 2 \<and>
     Q' (var_name 0 0 0, var_name 1 0 1) = None"
proof -
  obtain Q' where t: "term2 ''HH'' Map.empty = Inr Q'"
    and a: "\<And>i j k jp kp.
        i < length ''HH'' \<and>
        j < length ''HH'' div 2 + 1 \<and> k < length ''HH'' div 2 + 1 \<and>
        jp < length ''HH'' div 2 + 1 \<and> kp < length ''HH'' div 2 + 1 \<and>
        (j + k) mod 2 = i mod 2 \<and> (jp + kp) mod 2 = i mod 2 \<and> (j, k) \<noteq> (jp, kp) \<Longrightarrow>
        Q' (var_name i j k, var_name i jp kp) =
          Some (coeff Map.empty (var_name i j k, var_name i jp kp) + 2)"
    and b: "\<And>p. Q' p \<noteq> Map.empty p \<Longrightarrow>
        (\<exists>i j k jp kp. p = (var_name i j k, var_name i jp kp) \<and>
           i < length ''HH'' \<and>
           j < length ''HH'' div 2 + 1 \<and> k < length ''HH'' div 2 + 1 \<and>
           jp < length ''HH'' div 2 + 1 \<and> kp < length ''HH'' div 2 + 1 \<and>
           (j + k) mod 2 = i mod 2 \<and> (jp + kp) mod 2 = i mod 2 \<and> (j, k) \<noteq> (jp, kp))"
    using term2_contribution [of "''HH''" Map.empty] by blast
  have "Q' (var_name 0 0 0, var_name 0 1 1) =
      Some (coeff Map.empty (var_name 0 0 0, var_name 0 1 1) + 2)"
    by (rule a) simp
  then have 1: "Q' (var_name 0 0 0, var_name 0 1 1) = Some 2"
    by simp
  have "Q' (var_name 0 1 1, var_name 0 0 0) =
      Some (coeff Map.empty (var_name 0 1 1, var_name 0 0 0) + 2)"
    by (rule a) simp
  then have 2: "Q' (var_name 0 1 1, var_name 0 0 0) = Some 2"
    by simp
  have 3: "Q' (var_name 0 0 0, var_name 1 0 1) = None"
  proof (rule ccontr)
    assume "Q' (var_name 0 0 0, var_name 1 0 1) \<noteq> None"
    then have "\<exists>i j k jp kp.
           (var_name 0 0 0, var_name 1 0 1) = (var_name i j k, var_name i jp kp) \<and>
           i < length ''HH'' \<and>
           j < length ''HH'' div 2 + 1 \<and> k < length ''HH'' div 2 + 1 \<and>
           jp < length ''HH'' div 2 + 1 \<and> kp < length ''HH'' div 2 + 1 \<and>
           (j + k) mod 2 = i mod 2 \<and> (jp + kp) mod 2 = i mod 2 \<and> (j, k) \<noteq> (jp, kp)"
      by (intro b) simp
    then show False
      by auto
  qed
  from t 1 2 3 show ?thesis
    by blast
qed

lemma ran_bump_empty: "ran (bump K v Map.empty) \<subseteq> {v}"
  by (auto simp: ran_def bump_apply split: if_splits)

text \<open>
  Claim C6. Term 3, run on any dictionary \<open>Q\<close>, returns a dictionary in which, for every
  coordinate \<open>(j,k)\<close> of the grid and every two beads \<open>i1 < i2\<close> that have a variable at
  \<open>(j,k)\<close>, the coefficient of \<open>(var(i1,j,k), var(i2,j,k))\<close> is the old coefficient plus 10,
  while the reversed key keeps its entry: each unordered pair is written once. Started on
  the empty dictionary, every entry of Term 3 is 10, every entry of Term 4 is -3 and every
  entry of Term 1 is -1, so that in magnitude Term 3 exceeds Term 4, which exceeds Term 1.
\<close>

theorem term3_contribution:
  "\<exists>Q' T1 T3 T4.
     term3 sequence Q = Inr Q' \<and>
     (\<forall>i1 i2 j k.
        i1 < i2 \<and> i2 < length sequence \<and>
        j < length sequence div 2 + 1 \<and> k < length sequence div 2 + 1 \<and>
        (j + k) mod 2 = i1 mod 2 \<and> (j + k) mod 2 = i2 mod 2 \<longrightarrow>
        Q' (var_name i1 j k, var_name i2 j k) =
          Some (coeff Q (var_name i1 j k, var_name i2 j k) + 10) \<and>
        Q' (var_name i2 j k, var_name i1 j k) = Q (var_name i2 j k, var_name i1 j k)) \<and>
     term1 sequence Map.empty = Inr T1 \<and> term3 sequence Map.empty = Inr T3 \<and>
     term4 sequence Map.empty = Inr T4 \<and>
     ran T3 \<subseteq> {10} \<and> ran T4 \<subseteq> {- 3} \<and> ran T1 \<subseteq> {- 1} \<and>
     (\<forall>v3 v4 v1. v3 \<in> ran T3 \<and> v4 \<in> ran T4 \<and> v1 \<in> ran T1 \<longrightarrow>
        \<bar>v4\<bar> < \<bar>v3\<bar> \<and> \<bar>v1\<bar> < \<bar>v4\<bar>)"
proof (rule exI [of _ "bump (keys3 sequence) 10 Q"],
    rule exI [of _ "bump (keys1 sequence) (- 1) Map.empty"],
    rule exI [of _ "bump (keys3 sequence) 10 Map.empty"],
    rule exI [of _ "bump (keys4 sequence) (- 3) Map.empty"], intro conjI allI impI)
  show "term3 sequence Q = Inr (bump (keys3 sequence) 10 Q)"
    by (rule term3_result)
  show "term1 sequence Map.empty = Inr (bump (keys1 sequence) (- 1) Map.empty)"
    by (rule term1_result)
  show "term3 sequence Map.empty = Inr (bump (keys3 sequence) 10 Map.empty)"
    by (rule term3_result)
  show "term4 sequence Map.empty = Inr (bump (keys4 sequence) (- 3) Map.empty)"
    by (rule term4_result)
  show "ran (bump (keys3 sequence) 10 Map.empty) \<subseteq> {10}"
    and "ran (bump (keys4 sequence) (- 3) Map.empty) \<subseteq> {- 3}"
    and "ran (bump (keys1 sequence) (- 1) Map.empty) \<subseteq> {- 1}"
    by (rule ran_bump_empty)+
next
  fix i1 i2 j k
  assume a: "i1 < i2 \<and> i2 < length sequence \<and>
        j < length sequence div 2 + 1 \<and> k < length sequence div 2 + 1 \<and>
        (j + k) mod 2 = i1 mod 2 \<and> (j + k) mod 2 = i2 mod 2"
  then have "(var_name i1 j k, var_name i2 j k) \<in> keys3 sequence"
    unfolding keys3_iff by blast
  then show "bump (keys3 sequence) 10 Q (var_name i1 j k, var_name i2 j k) =
          Some (coeff Q (var_name i1 j k, var_name i2 j k) + 10)"
    by (simp add: bump_apply)
  from a have "(var_name i2 j k, var_name i1 j k) \<notin> keys3 sequence"
    unfolding keys3_iff by auto
  then show "bump (keys3 sequence) 10 Q (var_name i2 j k, var_name i1 j k) =
      Q (var_name i2 j k, var_name i1 j k)"
    by (simp add: bump_apply)
next
  fix v3 v4 v1 :: int
  assume "v3 \<in> ran (bump (keys3 sequence) 10 Map.empty) \<and>
     v4 \<in> ran (bump (keys4 sequence) (- 3) Map.empty) \<and>
     v1 \<in> ran (bump (keys1 sequence) (- 1) Map.empty)"
  then have v: "v3 = 10" "v4 = - 3" "v1 = - 1"
    using ran_bump_empty [of "keys3 sequence" 10] ran_bump_empty [of "keys4 sequence" "- 3"]
      ran_bump_empty [of "keys1 sequence" "- 1"] by auto
  show "\<bar>v4\<bar> < \<bar>v3\<bar>" and "\<bar>v1\<bar> < \<bar>v4\<bar>"
    by (simp_all add: v)
qed

theorem term3_contribution_witness:
  "\<exists>Q' T1 T4.
     term3 ''HPPH'' Map.empty = Inr Q' \<and>
     term1 ''HPPH'' Map.empty = Inr T1 \<and> term4 ''HPPH'' Map.empty = Inr T4 \<and>
     Q' (var_name 0 0 0, var_name 2 0 0) = Some 10 \<and>
     Q' (var_name 2 0 0, var_name 0 0 0) = None \<and>
     T4 (var_name 0 0 0, var_name 1 0 1) = Some (- 3) \<and>
     T1 (var_name 0 0 0, var_name 3 0 1) = Some (- 1) \<and>
     \<bar>- 3 :: int\<bar> < \<bar>10\<bar> \<and> \<bar>- 1 :: int\<bar> < \<bar>- 3\<bar>"
proof -
  obtain Q' T1 T3 T4 where t: "term3 ''HPPH'' Map.empty = Inr Q'"
    and a: "\<And>i1 i2 j k.
        i1 < i2 \<and> i2 < length ''HPPH'' \<and>
        j < length ''HPPH'' div 2 + 1 \<and> k < length ''HPPH'' div 2 + 1 \<and>
        (j + k) mod 2 = i1 mod 2 \<and> (j + k) mod 2 = i2 mod 2 \<Longrightarrow>
        Q' (var_name i1 j k, var_name i2 j k) =
          Some (coeff Map.empty (var_name i1 j k, var_name i2 j k) + 10) \<and>
        Q' (var_name i2 j k, var_name i1 j k) = Map.empty (var_name i2 j k, var_name i1 j k)"
    and t134: "term1 ''HPPH'' Map.empty = Inr T1" "term3 ''HPPH'' Map.empty = Inr T3"
      "term4 ''HPPH'' Map.empty = Inr T4"
    and m: "\<And>v3 v4 v1. v3 \<in> ran T3 \<and> v4 \<in> ran T4 \<and> v1 \<in> ran T1 \<Longrightarrow>
        \<bar>v4\<bar> < \<bar>v3\<bar> \<and> \<bar>v1\<bar> < \<bar>v4\<bar>"
    using term3_contribution [of "''HPPH''" Map.empty] by blast
  have "Q' (var_name 0 0 0, var_name 2 0 0) =
          Some (coeff Map.empty (var_name 0 0 0, var_name 2 0 0) + 10) \<and>
        Q' (var_name 2 0 0, var_name 0 0 0) = Map.empty (var_name 2 0 0, var_name 0 0 0)"
    by (rule a) simp
  then have q: "Q' (var_name 0 0 0, var_name 2 0 0) = Some 10"
    "Q' (var_name 2 0 0, var_name 0 0 0) = None"
    by simp_all
  have "(var_name 0 0 0, var_name 1 0 1) \<in> keys4 ''HPPH''"
    unfolding keys4_iff
    by (rule exI [of _ 0], rule exI [of _ 0], rule exI [of _ 0], rule exI [of _ 0],
        rule exI [of _ 1]) simp
  with t134(3) have t4: "T4 (var_name 0 0 0, var_name 1 0 1) = Some (- 3)"
    by (auto simp: term4_result bump_apply)
  have "(var_name 0 0 0, var_name 3 0 1) \<in> keys1 ''HPPH''"
    unfolding keys1_iff
    by (rule exI [of _ 0], rule exI [of _ 3], rule exI [of _ 0], rule exI [of _ 0],
        rule exI [of _ 0], rule exI [of _ 1]) simp
  with t134(1) have t1: "T1 (var_name 0 0 0, var_name 3 0 1) = Some (- 1)"
    by (auto simp: term1_result bump_apply)
  from t q have "T3 = Q'"
    using t134(2) by simp
  with q have "10 \<in> ran T3"
    by (auto simp: ran_def)
  moreover from t4 have "- 3 \<in> ran T4"
    by (auto simp: ran_def)
  moreover from t1 have "- 1 \<in> ran T1"
    by (auto simp: ran_def)
  ultimately have "\<bar>- 3 :: int\<bar> < \<bar>10\<bar> \<and> \<bar>- 1 :: int\<bar> < \<bar>- 3\<bar>"
    by (intro m) simp
  with t t134 q t4 t1 show ?thesis
    by blast
qed

lemma run_terms_outcome:
  assumes "\<And>t Q. t \<in> set ts \<Longrightarrow> t Q = Inr (outcome t Q)"
  shows "run_terms ts Q = Inr (fold outcome ts Q)"
  unfolding run_terms_def using assms
proof (induction ts arbitrary: Q)
  case Nil
  show ?case by simp
next
  case (Cons t ts)
  have "t Q = Inr (outcome t Q)"
    by (rule Cons.prems) simp
  moreover have "for_each ts (\<lambda>t. t) (outcome t Q) = Inr (fold outcome ts (outcome t Q))"
  proof (rule Cons.IH)
    fix t' Q'
    assume "t' \<in> set ts"
    then have "t' \<in> set (t # ts)"
      by simp
    then show "t' Q' = Inr (outcome t' Q')"
      by (rule Cons.prems)
  qed
  ultimately show ?case
    by simp
qed

lemma outcome_terms:
  "outcome (term1 sequence) = bump (keys1 sequence) (- 1)"
  "outcome (term2 sequence) = bump (keys2 sequence) 2"
  "outcome (term3 sequence) = bump (keys3 sequence) 10"
  "outcome (term4 sequence) = bump (keys4 sequence) (- 3)"
  by (simp_all add: fun_eq_iff outcome_def term1_result term2_result term3_result term4_result)

lemma terms_total:
  assumes "t \<in> {term1 sequence, term2 sequence, term3 sequence, term4 sequence}"
  shows "t Q = Inr (outcome t Q)"
  using assms
  by (auto simp: outcome_def term1_result term2_result term3_result term4_result)

lemma terms_commute:
  assumes "t \<in> {term1 sequence, term2 sequence, term3 sequence, term4 sequence}"
    and "t' \<in> {term1 sequence, term2 sequence, term3 sequence, term4 sequence}"
  shows "outcome t \<circ> outcome t' = outcome t' \<circ> outcome t"
proof -
  obtain K v where t: "outcome t = bump K v"
    using assms(1) outcome_terms [of sequence] by auto
  obtain K' v' where t': "outcome t' = bump K' v'"
    using assms(2) outcome_terms [of sequence] by auto
  show ?thesis
    unfolding t t' by (simp add: fun_eq_iff bump_commute [of K v K' v'])
qed

lemma run_terms_any_order:
  assumes "mset ts = mset [term1 sequence, term2 sequence, term3 sequence, term4 sequence]"
  shows "run_terms ts Q =
    run_terms [term1 sequence, term2 sequence, term3 sequence, term4 sequence] Q"
proof -
  let ?us = "[term1 sequence, term2 sequence, term3 sequence, term4 sequence]"
  have s: "set ts = {term1 sequence, term2 sequence, term3 sequence, term4 sequence}"
    using mset_eq_setD [OF assms] by simp
  have "fold outcome ts = fold outcome ?us"
  proof (rule fold_multiset_equiv [OF _ assms])
    fix t t'
    assume "t \<in> set ts" "t' \<in> set ts"
    then show "outcome t \<circ> outcome t' = outcome t' \<circ> outcome t"
      unfolding s by (rule terms_commute)
  qed
  moreover have "run_terms ts Q = Inr (fold outcome ts Q)"
  proof (rule run_terms_outcome)
    fix t Q'
    assume "t \<in> set ts"
    then show "t Q' = Inr (outcome t Q')"
      unfolding s by (rule terms_total)
  qed
  moreover have "run_terms ?us Q = Inr (fold outcome ?us Q)"
  proof (rule run_terms_outcome)
    fix t Q'
    assume "t \<in> set ?us"
    then have "t \<in> {term1 sequence, term2 sequence, term3 sequence, term4 sequence}"
      by simp
    then show "t Q' = Inr (outcome t Q')"
      by (rule terms_total)
  qed
  ultimately show ?thesis
    by simp
qed

lemma run_terms_qubo:
  "run_terms [term1 sequence, term2 sequence, term3 sequence, term4 sequence] Map.empty =
     qubo sequence"
  by (simp add: run_terms_def qubo_def term1_result term2_result term3_result term4_result)

lemma coeff_bump_empty: "coeff (bump K v Map.empty) p = (if p \<in> K then v else 0)"
  by (simp add: coeff_bump)

section \<open>The whole dictionary\<close>

lemma bump_empty_apply: "bump K v Map.empty p = (if p \<in> K then Some v else None)"
  by (simp add: bump_apply)

text \<open>
  Claim C1. The construction returns a dictionary \<open>Q\<close>. Each term, run alone on the empty
  dictionary, holds its own value (-1 for Term 1, 2 for Term 2, 10 for Term 3, -3 for
  Term 4) at exactly the pairs it is about and nothing elsewhere. The coefficient of \<open>Q\<close> at
  every pair is the sum of these values over the terms the pair takes part in, which is
  also the sum of the coefficients of the four terms run alone, and the keys of \<open>Q\<close> are
  the keys of the four terms together. Each term, run on any dictionary \<open>Q0\<close>, adds its own
  coefficient to the one already there and keeps every key of \<open>Q0\<close>. Running the four
  loops in any order gives the same dictionary \<open>Q\<close>.
\<close>

theorem qubo_sum_of_terms:
  "\<exists>Q T1 T2 T3 T4.
     qubo sequence = Inr Q \<and>
     term1 sequence Map.empty = Inr T1 \<and> term2 sequence Map.empty = Inr T2 \<and>
     term3 sequence Map.empty = Inr T3 \<and> term4 sequence Map.empty = Inr T4 \<and>
     (\<forall>p. T1 p =
        (if \<exists>f fp j k jp kp. p = (var_name f j k, var_name fp jp kp) \<and>
              f + 2 \<le> fp \<and> fp < length sequence \<and>
              sequence ! f = CHR ''H'' \<and> sequence ! fp = CHR ''H'' \<and>
              j < length sequence div 2 + 1 \<and> k < length sequence div 2 + 1 \<and>
              jp < length sequence div 2 + 1 \<and> kp < length sequence div 2 + 1 \<and>
              \<bar>int j - int jp\<bar> + \<bar>int k - int kp\<bar> = 1 \<and>
              (j + k) mod 2 = f mod 2 \<and> (jp + kp) mod 2 = fp mod 2
         then Some (- 1) else None)) \<and>
     (\<forall>p. T2 p =
        (if \<exists>i j k jp kp. p = (var_name i j k, var_name i jp kp) \<and>
              i < length sequence \<and>
              j < length sequence div 2 + 1 \<and> k < length sequence div 2 + 1 \<and>
              jp < length sequence div 2 + 1 \<and> kp < length sequence div 2 + 1 \<and>
              (j + k) mod 2 = i mod 2 \<and> (jp + kp) mod 2 = i mod 2 \<and> (j, k) \<noteq> (jp, kp)
         then Some 2 else None)) \<and>
     (\<forall>p. T3 p =
        (if \<exists>i1 i2 j k. p = (var_name i1 j k, var_name i2 j k) \<and>
              i1 < i2 \<and> i2 < length sequence \<and>
              j < length sequence div 2 + 1 \<and> k < length sequence div 2 + 1 \<and>
              (j + k) mod 2 = i1 mod 2 \<and> (j + k) mod 2 = i2 mod 2
         then Some 10 else None)) \<and>
     (\<forall>p. T4 p =
        (if \<exists>i j k jp kp. p = (var_name i j k, var_name (i + 1) jp kp) \<and>
              i + 1 < length sequence \<and>
              j < length sequence div 2 + 1 \<and> k < length sequence div 2 + 1 \<and>
              jp < length sequence div 2 + 1 \<and> kp < length sequence div 2 + 1 \<and>
              (j + k) mod 2 = i mod 2 \<and>
              \<bar>int j - int jp\<bar> + \<bar>int k - int kp\<bar> = 1 \<and> (jp + kp) mod 2 = (i + 1) mod 2
         then Some (- 3) else None)) \<and>
     (\<forall>p. coeff Q p =
        (if \<exists>f fp j k jp kp. p = (var_name f j k, var_name fp jp kp) \<and>
              f + 2 \<le> fp \<and> fp < length sequence \<and>
              sequence ! f = CHR ''H'' \<and> sequence ! fp = CHR ''H'' \<and>
              j < length sequence div 2 + 1 \<and> k < length sequence div 2 + 1 \<and>
              jp < length sequence div 2 + 1 \<and> kp < length sequence div 2 + 1 \<and>
              \<bar>int j - int jp\<bar> + \<bar>int k - int kp\<bar> = 1 \<and>
              (j + k) mod 2 = f mod 2 \<and> (jp + kp) mod 2 = fp mod 2
         then - 1 else 0) +
        (if \<exists>i j k jp kp. p = (var_name i j k, var_name i jp kp) \<and>
              i < length sequence \<and>
              j < length sequence div 2 + 1 \<and> k < length sequence div 2 + 1 \<and>
              jp < length sequence div 2 + 1 \<and> kp < length sequence div 2 + 1 \<and>
              (j + k) mod 2 = i mod 2 \<and> (jp + kp) mod 2 = i mod 2 \<and> (j, k) \<noteq> (jp, kp)
         then 2 else 0) +
        (if \<exists>i1 i2 j k. p = (var_name i1 j k, var_name i2 j k) \<and>
              i1 < i2 \<and> i2 < length sequence \<and>
              j < length sequence div 2 + 1 \<and> k < length sequence div 2 + 1 \<and>
              (j + k) mod 2 = i1 mod 2 \<and> (j + k) mod 2 = i2 mod 2
         then 10 else 0) +
        (if \<exists>i j k jp kp. p = (var_name i j k, var_name (i + 1) jp kp) \<and>
              i + 1 < length sequence \<and>
              j < length sequence div 2 + 1 \<and> k < length sequence div 2 + 1 \<and>
              jp < length sequence div 2 + 1 \<and> kp < length sequence div 2 + 1 \<and>
              (j + k) mod 2 = i mod 2 \<and>
              \<bar>int j - int jp\<bar> + \<bar>int k - int kp\<bar> = 1 \<and> (jp + kp) mod 2 = (i + 1) mod 2
         then - 3 else 0)) \<and>
     (\<forall>p. coeff Q p = coeff T1 p + coeff T2 p + coeff T3 p + coeff T4 p) \<and>
     dom Q = dom T1 \<union> dom T2 \<union> dom T3 \<union> dom T4 \<and>
     (\<forall>Q0. \<exists>Q1 Q2 Q3 Q4.
        term1 sequence Q0 = Inr Q1 \<and> term2 sequence Q0 = Inr Q2 \<and>
        term3 sequence Q0 = Inr Q3 \<and> term4 sequence Q0 = Inr Q4 \<and>
        (\<forall>p. coeff Q1 p = coeff Q0 p + coeff T1 p \<and> coeff Q2 p = coeff Q0 p + coeff T2 p \<and>
             coeff Q3 p = coeff Q0 p + coeff T3 p \<and> coeff Q4 p = coeff Q0 p + coeff T4 p) \<and>
        dom Q1 = dom Q0 \<union> dom T1 \<and> dom Q2 = dom Q0 \<union> dom T2 \<and>
        dom Q3 = dom Q0 \<union> dom T3 \<and> dom Q4 = dom Q0 \<union> dom T4) \<and>
     (\<forall>ts. mset ts = mset [term1 sequence, term2 sequence, term3 sequence, term4 sequence] \<longrightarrow>
        run_terms ts Map.empty = Inr Q)"
proof -
  let ?T1 = "bump (keys1 sequence) (- 1) Map.empty"
  let ?T2 = "bump (keys2 sequence) 2 Map.empty"
  let ?T3 = "bump (keys3 sequence) 10 Map.empty"
  let ?T4 = "bump (keys4 sequence) (- 3) Map.empty"
  let ?Q = "bump (keys4 sequence) (- 3) (bump (keys3 sequence) 10
     (bump (keys2 sequence) 2 (bump (keys1 sequence) (- 1) Map.empty)))"
  have q: "qubo sequence = Inr ?Q"
    by (rule qubo_result)
  have e1: "\<forall>p. ?T1 p = (if p \<in> keys1 sequence then Some (- 1) else None)"
    and e2: "\<forall>p. ?T2 p = (if p \<in> keys2 sequence then Some 2 else None)"
    and e3: "\<forall>p. ?T3 p = (if p \<in> keys3 sequence then Some 10 else None)"
    and e4: "\<forall>p. ?T4 p = (if p \<in> keys4 sequence then Some (- 3) else None)"
    by (simp_all add: bump_empty_apply)
  have s: "\<forall>p. coeff ?Q p =
      (if p \<in> keys1 sequence then - 1 else 0) + (if p \<in> keys2 sequence then 2 else 0) +
      (if p \<in> keys3 sequence then 10 else 0) + (if p \<in> keys4 sequence then - 3 else 0)"
    by (simp add: coeff_bump)
  have c: "\<forall>p. coeff ?Q p = coeff ?T1 p + coeff ?T2 p + coeff ?T3 p + coeff ?T4 p"
    by (simp add: coeff_bump)
  have d: "dom ?Q = dom ?T1 \<union> dom ?T2 \<union> dom ?T3 \<union> dom ?T4"
    by (simp add: dom_bump Un_assoc)
  have a: "\<forall>Q0. \<exists>Q1 Q2 Q3 Q4.
        term1 sequence Q0 = Inr Q1 \<and> term2 sequence Q0 = Inr Q2 \<and>
        term3 sequence Q0 = Inr Q3 \<and> term4 sequence Q0 = Inr Q4 \<and>
        (\<forall>p. coeff Q1 p = coeff Q0 p + coeff ?T1 p \<and> coeff Q2 p = coeff Q0 p + coeff ?T2 p \<and>
             coeff Q3 p = coeff Q0 p + coeff ?T3 p \<and> coeff Q4 p = coeff Q0 p + coeff ?T4 p) \<and>
        dom Q1 = dom Q0 \<union> dom ?T1 \<and> dom Q2 = dom Q0 \<union> dom ?T2 \<and>
        dom Q3 = dom Q0 \<union> dom ?T3 \<and> dom Q4 = dom Q0 \<union> dom ?T4"
    by (simp add: term1_result term2_result term3_result term4_result coeff_bump dom_bump)
  have o: "\<forall>ts. mset ts = mset [term1 sequence, term2 sequence, term3 sequence, term4 sequence] \<longrightarrow>
        run_terms ts Map.empty = Inr ?Q"
    using run_terms_any_order [of _ sequence Map.empty]
    by (simp only: run_terms_qubo q) simp
  show ?thesis
    by (rule exI [of _ ?Q], rule exI [of _ ?T1], rule exI [of _ ?T2], rule exI [of _ ?T3],
        rule exI [of _ ?T4])
      (intro conjI q c d a o term1_result term2_result term3_result term4_result
        e1 [unfolded keys1_iff] e2 [unfolded keys2_iff] e3 [unfolded keys3_iff]
        e4 [unfolded keys4_iff] s [unfolded keys1_iff keys2_iff keys3_iff keys4_iff])
qed

theorem qubo_sum_of_terms_witness:
  "run_terms [term4 ''HPPH'', term2 ''HPPH'', term3 ''HPPH'', term1 ''HPPH''] Map.empty =
     qubo ''HPPH'' \<and>
   (\<exists>Q. qubo ''HPPH'' = Inr Q \<and>
      coeff Q (var_name 0 0 0, var_name 3 0 1) = - 1 \<and>
      coeff Q (var_name 0 0 0, var_name 0 1 1) = 2 \<and>
      coeff Q (var_name 0 0 0, var_name 2 0 0) = 10 \<and>
      coeff Q (var_name 0 0 0, var_name 1 0 1) = - 3 \<and>
      coeff Q (var_name 1 0 1, var_name 0 0 0) = 0)"
proof -
  from qubo_sum_of_terms [of "''HPPH''"]
  obtain Q where q: "qubo ''HPPH'' = Inr Q"
    and s: "\<forall>p. coeff Q p =
        (if \<exists>f fp j k jp kp. p = (var_name f j k, var_name fp jp kp) \<and>
              f + 2 \<le> fp \<and> fp < length ''HPPH'' \<and>
              ''HPPH'' ! f = CHR ''H'' \<and> ''HPPH'' ! fp = CHR ''H'' \<and>
              j < length ''HPPH'' div 2 + 1 \<and> k < length ''HPPH'' div 2 + 1 \<and>
              jp < length ''HPPH'' div 2 + 1 \<and> kp < length ''HPPH'' div 2 + 1 \<and>
              \<bar>int j - int jp\<bar> + \<bar>int k - int kp\<bar> = 1 \<and>
              (j + k) mod 2 = f mod 2 \<and> (jp + kp) mod 2 = fp mod 2
         then - 1 else 0) +
        (if \<exists>i j k jp kp. p = (var_name i j k, var_name i jp kp) \<and>
              i < length ''HPPH'' \<and>
              j < length ''HPPH'' div 2 + 1 \<and> k < length ''HPPH'' div 2 + 1 \<and>
              jp < length ''HPPH'' div 2 + 1 \<and> kp < length ''HPPH'' div 2 + 1 \<and>
              (j + k) mod 2 = i mod 2 \<and> (jp + kp) mod 2 = i mod 2 \<and> (j, k) \<noteq> (jp, kp)
         then 2 else 0) +
        (if \<exists>i1 i2 j k. p = (var_name i1 j k, var_name i2 j k) \<and>
              i1 < i2 \<and> i2 < length ''HPPH'' \<and>
              j < length ''HPPH'' div 2 + 1 \<and> k < length ''HPPH'' div 2 + 1 \<and>
              (j + k) mod 2 = i1 mod 2 \<and> (j + k) mod 2 = i2 mod 2
         then 10 else 0) +
        (if \<exists>i j k jp kp. p = (var_name i j k, var_name (i + 1) jp kp) \<and>
              i + 1 < length ''HPPH'' \<and>
              j < length ''HPPH'' div 2 + 1 \<and> k < length ''HPPH'' div 2 + 1 \<and>
              jp < length ''HPPH'' div 2 + 1 \<and> kp < length ''HPPH'' div 2 + 1 \<and>
              (j + k) mod 2 = i mod 2 \<and>
              \<bar>int j - int jp\<bar> + \<bar>int k - int kp\<bar> = 1 \<and> (jp + kp) mod 2 = (i + 1) mod 2
         then - 3 else 0)"
    and o: "\<forall>ts. mset ts = mset [term1 ''HPPH'', term2 ''HPPH'', term3 ''HPPH'', term4 ''HPPH''] \<longrightarrow>
        run_terms ts Map.empty = Inr Q"
    by (elim exE conjE) (rule that; assumption)
  have m: "mset [term4 ''HPPH'', term2 ''HPPH'', term3 ''HPPH'', term1 ''HPPH''] =
      mset [term1 ''HPPH'', term2 ''HPPH'', term3 ''HPPH'', term4 ''HPPH'']"
    by (simp add: add_mset_commute)
  have "run_terms [term4 ''HPPH'', term2 ''HPPH'', term3 ''HPPH'', term1 ''HPPH''] Map.empty = Inr Q"
    by (rule o [rule_format, OF m])
  with q have 0: "run_terms [term4 ''HPPH'', term2 ''HPPH'', term3 ''HPPH'', term1 ''HPPH'']
      Map.empty = qubo ''HPPH''"
    by simp
  have 1: "coeff Q (var_name 0 0 0, var_name 3 0 1) = - 1"
    using s [THEN spec [of _ "(var_name 0 0 0, var_name 3 0 1)"]] by simp
  have 2: "coeff Q (var_name 0 0 0, var_name 0 1 1) = 2"
    using s [THEN spec [of _ "(var_name 0 0 0, var_name 0 1 1)"]] by simp
  have 3: "coeff Q (var_name 0 0 0, var_name 2 0 0) = 10"
    using s [THEN spec [of _ "(var_name 0 0 0, var_name 2 0 0)"]] by simp
  have 4: "coeff Q (var_name 0 0 0, var_name 1 0 1) = - 3"
    using s [THEN spec [of _ "(var_name 0 0 0, var_name 1 0 1)"]] by simp
  have 5: "coeff Q (var_name 1 0 1, var_name 0 0 0) = 0"
    using s [THEN spec [of _ "(var_name 1 0 1, var_name 0 0 0)"]] by simp
  from 0 q 1 2 3 4 5 show ?thesis
    by (intro conjI exI [of _ Q])
qed

lemma var_in_ran:
  "i < N_of sequence \<Longrightarrow> j < L_of sequence \<Longrightarrow> k < L_of sequence \<Longrightarrow> site_ok i j k \<Longrightarrow>
   var_name i j k \<in> ran (variables sequence)"
  by (rule ranI [of _ "(i, j, k)"]) (simp add: variables_eq)

lemma keys_are_variable_pairs:
  assumes "(A, B) \<in> keys1 sequence \<union> keys2 sequence \<union> keys3 sequence \<union> keys4 sequence"
  shows "A \<noteq> B \<and> A \<in> ran (variables sequence) \<and> B \<in> ran (variables sequence)"
proof -
  consider "(A, B) \<in> keys1 sequence" | "(A, B) \<in> keys2 sequence"
    | "(A, B) \<in> keys3 sequence" | "(A, B) \<in> keys4 sequence"
    using assms by blast
  then show ?thesis
  proof cases
    case 1
    then show ?thesis
      by (auto simp: keys1_def intro!: var_in_ran)
  next
    case 2
    then show ?thesis
      by (auto simp: keys2_def intro!: var_in_ran)
  next
    case 3
    then show ?thesis
      by (auto simp: keys3_def intro!: var_in_ran)
  next
    case 4
    then show ?thesis
      by (auto simp: keys4_def intro!: var_in_ran)
  qed
qed

lemma dom_bump_empty: "dom (bump K v Map.empty) = K"
  by (simp add: dom_bump)

lemma qubo_at_keys:
  "qubo sequence = Inr Q \<Longrightarrow>
   (p \<in> keys1 sequence \<longrightarrow> Q p = Some (- 1)) \<and> (p \<in> keys2 sequence \<longrightarrow> Q p = Some 2) \<and>
   (p \<in> keys3 sequence \<longrightarrow> Q p = Some 10) \<and> (p \<in> keys4 sequence \<longrightarrow> Q p = Some (- 3)) \<and>
   (p \<notin> keys1 sequence \<union> keys2 sequence \<union> keys3 sequence \<union> keys4 sequence \<longrightarrow> Q p = None)"
  using keys12 [of sequence] keys13 [of sequence] keys14 [of sequence]
    keys23 [of sequence] keys24 [of sequence] keys34 [of sequence]
  by (auto simp: qubo_result_apply)

text \<open>
  Claim C10. The construction returns a dictionary \<open>Q\<close> in which every key is a pair of two
  different names of the variable dictionary. The key sets of the four terms (each run
  alone on the empty dictionary) are pairwise disjoint and together are the keys of \<open>Q\<close>:
  Term 2 keys pair two coordinates of one bead, Term 4 keys pair beads \<open>i\<close> and \<open>i + 1\<close> on
  adjacent coordinates, Term 1 keys pair beads at distance 2 or more on adjacent
  coordinates, Term 3 keys pair beads at distance 2 or more on one coordinate. The entry
  of \<open>Q\<close> at a key of Term 1, 2, 3, 4 is -1, 2, 10, -3: one contribution, and no other
  value occurs in \<open>Q\<close>.
\<close>

theorem qubo_keys:
  "\<exists>Q T1 T2 T3 T4.
     qubo sequence = Inr Q \<and>
     term1 sequence Map.empty = Inr T1 \<and> term2 sequence Map.empty = Inr T2 \<and>
     term3 sequence Map.empty = Inr T3 \<and> term4 sequence Map.empty = Inr T4 \<and>
     (\<forall>A B. (A, B) \<in> dom Q \<longrightarrow>
        A \<noteq> B \<and> A \<in> ran (variables sequence) \<and> B \<in> ran (variables sequence)) \<and>
     dom Q = dom T1 \<union> dom T2 \<union> dom T3 \<union> dom T4 \<and>
     dom T1 \<inter> dom T2 = {} \<and> dom T1 \<inter> dom T3 = {} \<and> dom T1 \<inter> dom T4 = {} \<and>
     dom T2 \<inter> dom T3 = {} \<and> dom T2 \<inter> dom T4 = {} \<and> dom T3 \<inter> dom T4 = {} \<and>
     (\<forall>p. p \<in> dom T2 \<longrightarrow>
        (\<exists>i j k jp kp. p = (var_name i j k, var_name i jp kp) \<and> (j, k) \<noteq> (jp, kp))) \<and>
     (\<forall>p. p \<in> dom T4 \<longrightarrow>
        (\<exists>i j k jp kp. p = (var_name i j k, var_name (i + 1) jp kp) \<and>
           \<bar>int j - int jp\<bar> + \<bar>int k - int kp\<bar> = 1)) \<and>
     (\<forall>p. p \<in> dom T1 \<longrightarrow>
        (\<exists>f fp j k jp kp. p = (var_name f j k, var_name fp jp kp) \<and> f + 2 \<le> fp \<and>
           \<bar>int j - int jp\<bar> + \<bar>int k - int kp\<bar> = 1)) \<and>
     (\<forall>p. p \<in> dom T3 \<longrightarrow>
        (\<exists>i1 i2 j k. p = (var_name i1 j k, var_name i2 j k) \<and> i1 + 2 \<le> i2)) \<and>
     (\<forall>p. (p \<in> dom T1 \<longrightarrow> Q p = Some (- 1)) \<and> (p \<in> dom T2 \<longrightarrow> Q p = Some 2) \<and>
          (p \<in> dom T3 \<longrightarrow> Q p = Some 10) \<and> (p \<in> dom T4 \<longrightarrow> Q p = Some (- 3))) \<and>
     ran Q \<subseteq> {- 1, 2, 10, - 3}"
proof -
  let ?K1 = "keys1 sequence" and ?K2 = "keys2 sequence"
  let ?K3 = "keys3 sequence" and ?K4 = "keys4 sequence"
  obtain Q where q: "qubo sequence = Inr Q"
    by (simp add: qubo_result)
  note at = qubo_at_keys [OF q]
  have "Q = bump ?K4 (- 3) (bump ?K3 10 (bump ?K2 2 (bump ?K1 (- 1) Map.empty)))"
    using q by (simp add: qubo_result)
  then have d: "dom Q = ?K1 \<union> ?K2 \<union> ?K3 \<union> ?K4"
    by (simp add: dom_bump)
  have v: "\<forall>A B. (A, B) \<in> dom Q \<longrightarrow>
        A \<noteq> B \<and> A \<in> ran (variables sequence) \<and> B \<in> ran (variables sequence)"
    unfolding d by (intro allI impI keys_are_variable_pairs)
  have k2: "\<forall>p. p \<in> ?K2 \<longrightarrow>
        (\<exists>i j k jp kp. p = (var_name i j k, var_name i jp kp) \<and> (j, k) \<noteq> (jp, kp))"
    unfolding keys2_iff by blast
  have k4: "\<forall>p. p \<in> ?K4 \<longrightarrow>
        (\<exists>i j k jp kp. p = (var_name i j k, var_name (i + 1) jp kp) \<and>
           \<bar>int j - int jp\<bar> + \<bar>int k - int kp\<bar> = 1)"
    unfolding keys4_iff by blast
  have k1: "\<forall>p. p \<in> ?K1 \<longrightarrow>
        (\<exists>f fp j k jp kp. p = (var_name f j k, var_name fp jp kp) \<and> f + 2 \<le> fp \<and>
           \<bar>int j - int jp\<bar> + \<bar>int k - int kp\<bar> = 1)"
    unfolding keys1_iff by blast
  have k3: "\<forall>p. p \<in> ?K3 \<longrightarrow>
        (\<exists>i1 i2 j k. p = (var_name i1 j k, var_name i2 j k) \<and> i1 + 2 \<le> i2)"
  proof (intro allI impI)
    fix p assume "p \<in> ?K3"
    then obtain i1 i2 j k where "p = (var_name i1 j k, var_name i2 j k)" "i1 < i2"
      "site_ok i1 j k" "site_ok i2 j k"
      unfolding keys3_def by blast
    then show "\<exists>i1 i2 j k. p = (var_name i1 j k, var_name i2 j k) \<and> i1 + 2 \<le> i2"
      using site_ok_same_parity by blast
  qed
  have c: "\<forall>p. (p \<in> ?K1 \<longrightarrow> Q p = Some (- 1)) \<and> (p \<in> ?K2 \<longrightarrow> Q p = Some 2) \<and>
          (p \<in> ?K3 \<longrightarrow> Q p = Some 10) \<and> (p \<in> ?K4 \<longrightarrow> Q p = Some (- 3))"
    using at by blast
  have r: "ran Q \<subseteq> {- 1, 2, 10, - 3}"
  proof
    fix x assume "x \<in> ran Q"
    then obtain p where p: "Q p = Some x"
      by (auto simp: ran_def)
    then have "p \<in> ?K1 \<union> ?K2 \<union> ?K3 \<union> ?K4"
      using at [of p] by auto
    with p at [of p] show "x \<in> {- 1, 2, 10, - 3}"
      by auto
  qed
  show ?thesis
    apply (rule exI [of _ Q])
    apply (rule exI [of _ "bump ?K1 (- 1) Map.empty"])
    apply (rule exI [of _ "bump ?K2 2 Map.empty"])
    apply (rule exI [of _ "bump ?K3 10 Map.empty"])
    apply (rule exI [of _ "bump ?K4 (- 3) Map.empty"])
    unfolding dom_bump_empty
    apply (intro conjI q term1_result term2_result term3_result term4_result v d
        keys12 keys13 keys14 keys23 keys24 keys34 k1 k2 k3 k4 c r)
    done
qed

theorem qubo_keys_witness:
  "\<exists>Q. qubo ''HPPH'' = Inr Q \<and>
     Q (var_name 0 0 0, var_name 3 0 1) = Some (- 1) \<and> var_name 0 0 0 \<noteq> var_name 3 0 1 \<and>
     var_name 0 0 0 \<in> ran (variables ''HPPH'')"
proof -
  from qubo_keys [of "''HPPH''"]
  obtain Q T1 and T2 T3 T4 :: qubo where q: "qubo ''HPPH'' = Inr Q" and t1: "term1 ''HPPH'' Map.empty = Inr T1"
    and v: "\<forall>A B. (A, B) \<in> dom Q \<longrightarrow>
        A \<noteq> B \<and> A \<in> ran (variables ''HPPH'') \<and> B \<in> ran (variables ''HPPH'')"
    and c: "\<forall>p. (p \<in> dom T1 \<longrightarrow> Q p = Some (- 1)) \<and> (p \<in> dom T2 \<longrightarrow> Q p = Some 2) \<and>
          (p \<in> dom T3 \<longrightarrow> Q p = Some 10) \<and> (p \<in> dom T4 \<longrightarrow> Q p = Some (- 3))"
    by (elim exE conjE) (rule that; assumption)
  have "(var_name 0 0 0, var_name 3 0 1) \<in> keys1 ''HPPH''"
    unfolding keys1_iff
    by (rule exI [of _ 0], rule exI [of _ 3], rule exI [of _ 0], rule exI [of _ 0],
        rule exI [of _ 0], rule exI [of _ 1]) simp
  moreover from t1 have "T1 = bump (keys1 ''HPPH'') (- 1) Map.empty"
    by (simp add: term1_result)
  then have "dom T1 = keys1 ''HPPH''"
    by (simp only: dom_bump_empty)
  ultimately have "(var_name 0 0 0, var_name 3 0 1) \<in> dom T1"
    by simp
  with c have 1: "Q (var_name 0 0 0, var_name 3 0 1) = Some (- 1)"
    by blast
  then have "(var_name 0 0 0, var_name 3 0 1) \<in> dom Q"
    by (simp add: dom_def)
  with v have "var_name 0 0 0 \<noteq> var_name 3 0 1 \<and> var_name 0 0 0 \<in> ran (variables ''HPPH'')"
    by blast
  with q 1 show ?thesis
    by blast
qed

lemma var_name_0_0_0: "var_name 0 0 0 = ''x_0_0_0''"
  by code_simp

lemma var_name_1_0_1: "var_name 1 0 1 = ''x_1_0_1''"
  by code_simp

lemma qubo_coeff_eq:
  "qubo_coeff sequence p =
     Inr (if p \<in> keys1 sequence then - 1 else if p \<in> keys2 sequence then 2
          else if p \<in> keys3 sequence then 10 else if p \<in> keys4 sequence then - 3 else 0)"
  by (simp add: qubo_coeff_def qubo_result_apply coeff_def dict_get_default_def)

lemma keys_bead_order:
  assumes "(var_name i j k, var_name i' j' k') \<in>
     keys1 sequence \<union> keys2 sequence \<union> keys3 sequence \<union> keys4 sequence"
  shows "i \<le> i'"
  using assms by (auto simp: keys1_def keys2_def keys3_def keys4_def)

lemma keys_same_bead:
  "(var_name i j k, var_name i j' k') \<notin> keys1 sequence \<union> keys3 sequence \<union> keys4 sequence"
  by (auto simp: keys1_def keys3_def keys4_def)

lemma keys2_sym:
  "(var_name i j k, var_name i j' k') \<in> keys2 sequence \<longleftrightarrow>
   (var_name i j' k', var_name i j k) \<in> keys2 sequence"
  by (auto simp: keys2_def)

text \<open>
  Claim C2 says that for every two distinct variables the coefficient of \<open>(A,B)\<close> equals the
  coefficient of \<open>(B,A)\<close>, an absent key counting as 0. The dictionary built for \<^verbatim>\<open>"HH"\<close>
  holds -3 at \<^verbatim>\<open>("x_0_0_0", "x_1_0_1")\<close>, written by Term 4, and has no key
  \<^verbatim>\<open>("x_1_0_1", "x_0_0_0")\<close>: Terms 1, 3 and 4 write each pair of variables of two beads
  once, with the variable of the lower bead first.
\<close>

theorem qubo_symmetry_counterexample:
  "qubo_coeff ''HH'' (''x_0_0_0'', ''x_1_0_1'') = Inr (- 3) \<and>
   qubo_coeff ''HH'' (''x_1_0_1'', ''x_0_0_0'') = Inr 0 \<and>
   ''x_0_0_0'' \<noteq> ''x_1_0_1''"
proof -
  have "(var_name 0 0 0, var_name 1 0 1) \<in> keys4 ''HH''"
    unfolding keys4_iff
    by (rule exI [of _ 0], rule exI [of _ 0], rule exI [of _ 0], rule exI [of _ 0],
        rule exI [of _ 1]) simp
  moreover have "(var_name 0 0 0, var_name 1 0 1) \<notin> keys1 ''HH''"
    "(var_name 0 0 0, var_name 1 0 1) \<notin> keys2 ''HH''"
    "(var_name 0 0 0, var_name 1 0 1) \<notin> keys3 ''HH''"
    using keys14 [of "''HH''"] keys24 [of "''HH''"] keys34 [of "''HH''"] calculation by blast+
  ultimately have a: "qubo_coeff ''HH'' (var_name 0 0 0, var_name 1 0 1) = Inr (- 3)"
    by (simp add: qubo_coeff_eq)
  have "(var_name 1 0 1, var_name 0 0 0) \<notin>
      keys1 ''HH'' \<union> keys2 ''HH'' \<union> keys3 ''HH'' \<union> keys4 ''HH''"
    using keys_bead_order [of 1 0 1 0 0 0 "''HH''"] by auto
  then have b: "qubo_coeff ''HH'' (var_name 1 0 1, var_name 0 0 0) = Inr 0"
    by (simp add: qubo_coeff_eq)
  have c: "''x_0_0_0'' \<noteq> ''x_1_0_1''"
    by simp
  from a b c show ?thesis
    by (simp only: var_name_0_0_0 var_name_1_0_1 simp_thms)
qed

text \<open>
  Claim C2 as the code has it. The coefficients of \<open>(A,B)\<close> and \<open>(B,A)\<close> are equal whenever
  \<open>A\<close> and \<open>B\<close> are variables of one bead; for variables of two beads the dictionary is
  directed: a key whose first variable belongs to the higher bead is absent.
\<close>

theorem qubo_pair_order:
  "\<exists>Q. qubo sequence = Inr Q \<and>
     (\<forall>i j k i' j' k'.
        (i = i' \<longrightarrow>
           coeff Q (var_name i j k, var_name i' j' k') =
           coeff Q (var_name i' j' k', var_name i j k)) \<and>
        (i' < i \<longrightarrow> Q (var_name i j k, var_name i' j' k') = None))"
proof -
  obtain Q where q: "qubo sequence = Inr Q"
    by (simp add: qubo_result)
  note at = qubo_at_keys [OF q]
  have "coeff Q (var_name i j k, var_name i j' k') = coeff Q (var_name i j' k', var_name i j k)"
    for i j k j' k'
  proof (cases "(var_name i j k, var_name i j' k') \<in> keys2 sequence")
    case True
    then have "(var_name i j' k', var_name i j k) \<in> keys2 sequence"
      by (simp only: keys2_sym)
    with True at [of "(var_name i j k, var_name i j' k')"]
      at [of "(var_name i j' k', var_name i j k)"] show ?thesis
      by (simp add: coeff_def dict_get_default_def)
  next
    case False
    then have "(var_name i j' k', var_name i j k) \<notin> keys2 sequence"
      by (simp only: keys2_sym not_False_eq_True)
    with False keys_same_bead [of i j k j' k' sequence] keys_same_bead [of i j' k' j k sequence]
      at [of "(var_name i j k, var_name i j' k')"]
      at [of "(var_name i j' k', var_name i j k)"] show ?thesis
      by (simp add: coeff_def dict_get_default_def)
  qed
  moreover have "Q (var_name i j k, var_name i' j' k') = None" if "i' < i" for i j k i' j' k'
  proof -
    have "(var_name i j k, var_name i' j' k') \<notin>
        keys1 sequence \<union> keys2 sequence \<union> keys3 sequence \<union> keys4 sequence"
      using keys_bead_order [of i j k i' j' k' sequence] that by auto
    with at [of "(var_name i j k, var_name i' j' k')"] show ?thesis
      by blast
  qed
  ultimately show ?thesis
    using q by blast
qed

theorem qubo_pair_order_witness:
  "\<exists>Q. qubo ''HH'' = Inr Q \<and>
     coeff Q (var_name 0 0 0, var_name 0 1 1) = coeff Q (var_name 0 1 1, var_name 0 0 0) \<and>
     Q (var_name 1 0 1, var_name 0 0 0) = None"
proof -
  from qubo_pair_order [of "''HH''"]
  obtain Q where q: "qubo ''HH'' = Inr Q"
    and s: "\<forall>i j k i' j' k'.
        (i = i' \<longrightarrow>
           coeff Q (var_name i j k, var_name i' j' k') =
           coeff Q (var_name i' j' k', var_name i j k)) \<and>
        (i' < i \<longrightarrow> Q (var_name i j k, var_name i' j' k') = None)"
    by (elim exE conjE) (rule that; assumption)
  have "coeff Q (var_name 0 0 0, var_name 0 1 1) = coeff Q (var_name 0 1 1, var_name 0 0 0)"
    using s [THEN spec [of _ "0::nat"], THEN spec [of _ "0::nat"], THEN spec [of _ "0::nat"],
        THEN spec [of _ "0::nat"], THEN spec [of _ "1::nat"], THEN spec [of _ "1::nat"]]
    by simp
  moreover have "Q (var_name 1 0 1, var_name 0 0 0) = None"
    using s [THEN spec [of _ "1::nat"], THEN spec [of _ "0::nat"], THEN spec [of _ "1::nat"],
        THEN spec [of _ "0::nat"], THEN spec [of _ "0::nat"], THEN spec [of _ "0::nat"]]
    by simp
  ultimately show ?thesis
    using q by simp
qed

lemma keys_length_only:
  assumes "length sequence' = length sequence"
  shows "keys2 sequence' = keys2 sequence" "keys3 sequence' = keys3 sequence"
    "keys4 sequence' = keys4 sequence"
  using assms by (simp_all add: keys2_def keys3_def keys4_def N_of_def L_of_def)

lemma keys1_needs_H:
  assumes "sequence ! f \<noteq> CHR ''H''"
  shows "(var_name f j k, var_name i' j' k') \<notin> keys1 sequence"
    "(var_name i' j' k', var_name f j k) \<notin> keys1 sequence"
  using assms by (auto simp: keys1_def)

text \<open>
  Claim C8. For every sequence, whatever characters it holds, the construction returns a
  dictionary: no subscription or lookup fails. A position holding a character other than
  \<open>H\<close> makes \<open>interaction\<close> return 0, and Term 1 leaves every key that names a variable of
  that bead as it was. Terms 2, 3 and 4 depend on the length of the sequence only.
\<close>

theorem qubo_total:
  "(\<exists>Q. qubo sequence = Inr Q) \<and>
   (\<forall>f. f < length sequence \<and> sequence ! f \<noteq> CHR ''H'' \<longrightarrow>
      (\<exists>Q'. term1 sequence Q0 = Inr Q' \<and>
         (\<forall>j k i' j' k'.
            Q' (var_name f j k, var_name i' j' k') = Q0 (var_name f j k, var_name i' j' k') \<and>
            Q' (var_name i' j' k', var_name f j k) = Q0 (var_name i' j' k', var_name f j k)))) \<and>
   (\<forall>h. h \<noteq> CHR ''H'' \<longrightarrow> interaction h h2 = 0 \<and> interaction h1 h = 0) \<and>
   (\<forall>sequence'. length sequence' = length sequence \<longrightarrow>
      term2 sequence' = term2 sequence \<and> term3 sequence' = term3 sequence \<and>
      term4 sequence' = term4 sequence)"
proof (intro conjI allI impI)
  show "\<exists>Q. qubo sequence = Inr Q"
    by (simp add: qubo_result)
next
  fix f
  assume "f < length sequence \<and> sequence ! f \<noteq> CHR ''H''"
  then have "sequence ! f \<noteq> CHR ''H''"
    by simp
  then show "\<exists>Q'. term1 sequence Q0 = Inr Q' \<and>
         (\<forall>j k i' j' k'.
            Q' (var_name f j k, var_name i' j' k') = Q0 (var_name f j k, var_name i' j' k') \<and>
            Q' (var_name i' j' k', var_name f j k) = Q0 (var_name i' j' k', var_name f j k))"
    by (simp add: term1_result bump_apply keys1_needs_H)
next
  fix h
  assume "h \<noteq> CHR ''H''"
  then show "interaction h h2 = 0" and "interaction h1 h = 0"
    by (simp_all add: interaction_def)
next
  fix sequence' :: string
  assume l: "length sequence' = length sequence"
  show "term2 sequence' = term2 sequence"
    by (simp add: fun_eq_iff term2_result keys_length_only [OF l])
  show "term3 sequence' = term3 sequence"
    by (simp add: fun_eq_iff term3_result keys_length_only [OF l])
  show "term4 sequence' = term4 sequence"
    by (simp add: fun_eq_iff term4_result keys_length_only [OF l])
qed

theorem qubo_total_witness:
  "(\<exists>Q. qubo ''HXPH'' = Inr Q) \<and>
   (\<exists>Q'. term1 ''HXPH'' Map.empty = Inr Q' \<and> Q' (var_name 1 0 1, var_name 3 1 1) = None) \<and>
   interaction CHR ''X'' CHR ''H'' = 0 \<and>
   term2 ''HPPH'' = term2 ''HXPH'' \<and> term3 ''HPPH'' = term3 ''HXPH'' \<and>
   term4 ''HPPH'' = term4 ''HXPH''"
proof -
  note t = qubo_total [of "''HXPH''" Map.empty "CHR ''H''" "CHR ''H''"]
  from t have 1: "\<exists>Q. qubo ''HXPH'' = Inr Q"
    by (rule conjunct1)
  from t have "\<forall>f. f < length ''HXPH'' \<and> ''HXPH'' ! f \<noteq> CHR ''H'' \<longrightarrow>
      (\<exists>Q'. term1 ''HXPH'' Map.empty = Inr Q' \<and>
         (\<forall>j k i' j' k'.
            Q' (var_name f j k, var_name i' j' k') = Map.empty (var_name f j k, var_name i' j' k') \<and>
            Q' (var_name i' j' k', var_name f j k) = Map.empty (var_name i' j' k', var_name f j k)))"
    by (rule conjunct2 [THEN conjunct1])
  from this [THEN spec [of _ "1::nat"]]
  obtain Q' where q: "term1 ''HXPH'' Map.empty = Inr Q'"
    and e: "\<forall>j k i' j' k'.
            Q' (var_name 1 j k, var_name i' j' k') = Map.empty (var_name 1 j k, var_name i' j' k') \<and>
            Q' (var_name i' j' k', var_name 1 j k) = Map.empty (var_name i' j' k', var_name 1 j k)"
    by auto
  have "Q' (var_name 1 0 1, var_name 3 1 1) = None"
    using e [THEN spec [of _ "0::nat"], THEN spec [of _ "1::nat"], THEN spec [of _ "3::nat"],
        THEN spec [of _ "1::nat"], THEN spec [of _ "1::nat"]]
    by simp
  with q have 2: "\<exists>Q'. term1 ''HXPH'' Map.empty = Inr Q' \<and>
      Q' (var_name 1 0 1, var_name 3 1 1) = None"
    by simp
  from t have "\<forall>h. h \<noteq> CHR ''H'' \<longrightarrow>
      interaction h CHR ''H'' = 0 \<and> interaction CHR ''H'' h = 0"
    by (rule conjunct2 [THEN conjunct2, THEN conjunct1])
  from this [THEN spec [of _ "CHR ''X''"]] have 3: "interaction CHR ''X'' CHR ''H'' = 0"
    by simp
  from t have "\<forall>sequence'. length sequence' = length ''HXPH'' \<longrightarrow>
      term2 sequence' = term2 ''HXPH'' \<and> term3 sequence' = term3 ''HXPH'' \<and>
      term4 sequence' = term4 ''HXPH''"
    by (rule conjunct2 [THEN conjunct2, THEN conjunct2])
  from this [THEN spec [of _ "''HPPH''"]]
  have 4: "term2 ''HPPH'' = term2 ''HXPH'' \<and> term3 ''HPPH'' = term3 ''HXPH'' \<and>
      term4 ''HPPH'' = term4 ''HXPH''"
    by simp
  from 1 2 3 4 show ?thesis
    by (intro conjI) simp_all
qed

section \<open>The variable dictionary\<close>

lemma distinct_concat_map:
  assumes "distinct xs" "\<And>x. x \<in> set xs \<Longrightarrow> distinct (g x)"
    and "\<And>x y. x \<in> set xs \<Longrightarrow> y \<in> set xs \<Longrightarrow> x \<noteq> y \<Longrightarrow> set (g x) \<inter> set (g y) = {}"
  shows "distinct (concat (map g xs))"
  using distinct_map_concat_map [of xs "\<lambda>x. x" g] assms by simp

lemma parity_step:
  fixes j i L :: nat
  shows "(if j mod 2 = i mod 2 then (L + 1) div 2 else L div 2) +
      (if (j + L) mod 2 = i mod 2 then 1 else 0) =
    (if j mod 2 = i mod 2 then (L + 2) div 2 else (L + 1) div 2)"
  by (cases "even j"; cases "even i"; cases "even L")
    (auto simp: mod_2_eq_odd elim!: evenE oddE)

lemma half_squares: "((L + 1) div 2) * ((L + 1) div 2) + (L div 2) * (L div 2) = (L * L + 1) div 2"
  for L :: nat
proof (cases "even L")
  case True
  then obtain m where "L = 2 * m" by (auto elim: evenE)
  then show ?thesis by (simp add: algebra_simps)
next
  case False
  then obtain m where "L = 2 * m + 1" by (auto elim: oddE)
  then show ?thesis by (simp add: algebra_simps)
qed

lemma half_products: "((L + 1) div 2) * (L div 2) + (L div 2) * ((L + 1) div 2) = L * L div 2"
  for L :: nat
proof (cases "even L")
  case True
  then obtain m where "L = 2 * m" by (auto elim: evenE)
  then show ?thesis by (simp add: algebra_simps)
next
  case False
  then obtain m where "L = 2 * m + 1" by (auto elim: oddE)
  then show ?thesis by (simp add: algebra_simps)
qed

lemma sum_list_if_const:
  "sum_list (map (\<lambda>x. if P x then a else b) xs) =
     a * length (filter P xs) + b * length (filter (\<lambda>x. \<not> P x) xs) " for a b :: nat
  by (induction xs) (simp_all add: algebra_simps)

lemma count_row:
  "length (filter (\<lambda>k. site_ok i j k) [0..<L]) =
     (if j mod 2 = i mod 2 then (L + 1) div 2 else L div 2)"
proof (induction L)
  case 0
  show ?case by simp
next
  case (Suc L)
  have "length (filter (\<lambda>k. site_ok i j k) [0..<Suc L]) =
      length (filter (\<lambda>k. site_ok i j k) [0..<L]) + (if (j + L) mod 2 = i mod 2 then 1 else 0)"
    by (simp add: site_ok_def)
  also have "\<dots> = (if j mod 2 = i mod 2 then (L + 1) div 2 else L div 2) +
      (if (j + L) mod 2 = i mod 2 then 1 else 0)"
    by (simp only: Suc.IH)
  also have "\<dots> = (if j mod 2 = i mod 2 then (L + 2) div 2 else (L + 1) div 2)"
    by (rule parity_step)
  finally show ?case
    by simp
qed

lemma count_parity: "length (filter (\<lambda>j. j mod 2 = i mod 2) [0..<L]) =
    (if even i then (L + 1) div 2 else L div 2)"
proof -
  have "(\<lambda>j. j mod 2 = i mod 2) = (\<lambda>k. site_ok i 0 k)"
    by (simp add: site_ok_def)
  then have "length (filter (\<lambda>j. j mod 2 = i mod 2) [0..<L]) =
      (if 0 mod 2 = i mod 2 then (L + 1) div 2 else L div 2)"
    by (simp only: count_row)
  also have "(0 mod 2 = i mod 2) = even i"
    by presburger
  finally show ?thesis .
qed

lemma count_other_parity: "length (filter (\<lambda>j. j mod 2 \<noteq> i mod 2) [0..<L]) =
    (if even i then L div 2 else (L + 1) div 2)"
proof -
  have "length (filter (\<lambda>j. j mod 2 = i mod 2) [0..<L]) +
      length (filter (\<lambda>j. j mod 2 \<noteq> i mod 2) [0..<L]) = L"
    using sum_length_filter_compl [of "\<lambda>j. j mod 2 = i mod 2" "[0..<L]"] by simp
  then have "length (filter (\<lambda>j. j mod 2 \<noteq> i mod 2) [0..<L]) =
      L - (if even i then (L + 1) div 2 else L div 2)"
    unfolding count_parity by simp
  also have "\<dots> = (if even i then L div 2 else (L + 1) div 2)"
    by (cases "even L") (auto elim!: evenE oddE)
  finally show ?thesis .
qed

lemma length_bead_sites:
  "length (bead_sites L i) = (if even i then (L * L + 1) div 2 else L * L div 2)"
proof -
  have "bead_sites L i = concat (map (\<lambda>j. map (\<lambda>k. (j, k)) (filter (\<lambda>k. site_ok i j k) [0..<L])) [0..<L])"
    unfolding bead_sites_def concat_map_if_filter [symmetric]
    by (simp add: map_concat o_def if_distrib [of "map _"] cong: if_cong)
  then have "length (bead_sites L i) =
      sum_list (map (\<lambda>j. if j mod 2 = i mod 2 then (L + 1) div 2 else L div 2) [0..<L])"
    by (simp add: length_concat o_def count_row)
  also have "\<dots> = (L + 1) div 2 * length (filter (\<lambda>j. j mod 2 = i mod 2) [0..<L]) +
      L div 2 * length (filter (\<lambda>j. j mod 2 \<noteq> i mod 2) [0..<L])"
    by (rule sum_list_if_const)
  also have "\<dots> = (if even i then (L * L + 1) div 2 else L * L div 2)"
    unfolding count_parity count_other_parity
    using half_squares [of L] half_products [of L] by simp
  finally show ?thesis .
qed

lemma distinct_bead_sites: "distinct (bead_sites L i)"
  unfolding bead_sites_def
  by (intro distinct_concat_map distinct_upt) auto

lemma set_bead_sites: "set (bead_sites L i) = {(j, k). j < L \<and> k < L \<and> site_ok i j k}"
  unfolding bead_sites_def by auto

lemma variable_keys_sites:
  "variable_keys sequence =
     concat (map (\<lambda>i. map (\<lambda>(j, k). (i, j, k)) (bead_sites (L_of sequence) i)) [0..<N_of sequence])"
  unfolding variable_keys_def bead_sites_def
  by (simp add: map_concat o_def if_distrib [of "map _"] cong: if_cong)

lemma distinct_variable_keys: "distinct (variable_keys sequence)"
  unfolding variable_keys_def
  by (intro distinct_concat_map distinct_upt) auto

lemma dom_variables: "dom (variables sequence) = set (variable_keys sequence)"
  by (auto simp: dom_def variables_eq variable_keys_def split: if_splits)

lemma length_variable_keys:
  "length (variable_keys sequence) =
     (\<Sum>i<N_of sequence. if even i then (L_of sequence * L_of sequence + 1) div 2
        else L_of sequence * L_of sequence div 2)"
  unfolding variable_keys_sites
  by (simp add: length_concat o_def length_bead_sites interv_sum_list_conv_sum_set_nat
      lessThan_atLeast0)

lemma variable_items_fst: "map fst (variable_items sequence) = variable_keys sequence"
  by (simp add: variable_items_keys o_def)

lemma card_bead_sites:
  assumes "i < N_of sequence"
  shows "card {(j, k). (i, j, k) \<in> dom (variables sequence)} =
    (if even i then (L_of sequence * L_of sequence + 1) div 2
     else L_of sequence * L_of sequence div 2)"
proof -
  have "{(j, k). (i, j, k) \<in> dom (variables sequence)} = set (bead_sites (L_of sequence) i)"
    using assms by (auto simp: set_bead_sites dom_def variables_eq)
  then show ?thesis
    by (simp add: distinct_card [OF distinct_bead_sites] length_bead_sites)
qed

text \<open>
  Claim C3. The variable dictionary has an entry at \<open>(i,j,k)\<close> exactly when \<open>i < N\<close>,
  \<open>j, k < L\<close> (with \<open>L = N div 2 + 1\<close>) and \<open>(j + k) mod 2 = i mod 2\<close>; the entry is the name
  \<open>x_i_j_k\<close>, different triples have different names, and the comprehension yields every
  key once. Bead \<open>i\<close> has \<open>(L\<^sup>2 + 1) div 2\<close> variables when \<open>i\<close> is even and \<open>L\<^sup>2 div 2\<close> when it is
  odd, and the dictionary has as many entries as these counts add up to over all beads.
\<close>

theorem variables_enumeration:
  "(\<forall>i j k. variables sequence (i, j, k) =
      (if i < length sequence \<and> j < length sequence div 2 + 1 \<and> k < length sequence div 2 + 1 \<and>
          (j + k) mod 2 = i mod 2
       then Some (var_name i j k) else None)) \<and>
   (\<forall>i j k i' j' k'. var_name i j k = var_name i' j' k' \<longrightarrow> i = i' \<and> j = j' \<and> k = k') \<and>
   distinct (map fst (variable_items sequence)) \<and>
   dom (variables sequence) = set (map fst (variable_items sequence)) \<and>
   (\<forall>i. i < length sequence \<longrightarrow>
      card {(j, k). (i, j, k) \<in> dom (variables sequence)} =
        (if even i
         then ((length sequence div 2 + 1) * (length sequence div 2 + 1) + 1) div 2
         else (length sequence div 2 + 1) * (length sequence div 2 + 1) div 2)) \<and>
   card (dom (variables sequence)) =
     (\<Sum>i<length sequence.
        if even i
        then ((length sequence div 2 + 1) * (length sequence div 2 + 1) + 1) div 2
        else (length sequence div 2 + 1) * (length sequence div 2 + 1) div 2)"
proof (intro conjI allI impI)
  fix i j k
  show "variables sequence (i, j, k) =
      (if i < length sequence \<and> j < length sequence div 2 + 1 \<and> k < length sequence div 2 + 1 \<and>
          (j + k) mod 2 = i mod 2
       then Some (var_name i j k) else None)"
    by (simp add: variables_eq N_of_def L_of_def site_ok_def)
next
  fix i j k i' j' k'
  assume "var_name i j k = var_name i' j' k'"
  then show "i = i'" "j = j'" "k = k'"
    by simp_all
next
  show "distinct (map fst (variable_items sequence))"
    by (simp only: variable_items_fst distinct_variable_keys)
  show "dom (variables sequence) = set (map fst (variable_items sequence))"
    by (simp only: variable_items_fst dom_variables)
next
  fix i
  assume "i < length sequence"
  then have "i < N_of sequence"
    by (simp add: N_of_def)
  from card_bead_sites [OF this]
  show "card {(j, k). (i, j, k) \<in> dom (variables sequence)} =
        (if even i
         then ((length sequence div 2 + 1) * (length sequence div 2 + 1) + 1) div 2
         else (length sequence div 2 + 1) * (length sequence div 2 + 1) div 2)"
    by (simp only: L_of_def)
next
  have "card (dom (variables sequence)) = length (variable_keys sequence)"
    by (simp only: dom_variables distinct_card [OF distinct_variable_keys])
  then show "card (dom (variables sequence)) =
     (\<Sum>i<length sequence.
        if even i
        then ((length sequence div 2 + 1) * (length sequence div 2 + 1) + 1) div 2
        else (length sequence div 2 + 1) * (length sequence div 2 + 1) div 2)"
    by (simp only: length_variable_keys N_of_def L_of_def)
qed

theorem variables_enumeration_witness:
  "variable_items ''PH'' =
     [((0, 0, 0), ''x_0_0_0''), ((0, 1, 1), ''x_0_1_1''),
      ((1, 0, 1), ''x_1_0_1''), ((1, 1, 0), ''x_1_1_0'')] \<and>
   variables ''PH'' (1, 0, 1) = Some (var_name 1 0 1) \<and>
   variables ''PH'' (1, 0, 0) = None \<and>
   card {(j, k). (1, j, k) \<in> dom (variables ''PH'')} = 2 \<and>
   card (dom (variables ''PH'')) = 4"
proof -
  note t = variables_enumeration [of "''PH''"]
  have 0: "variable_items ''PH'' =
     [((0, 0, 0), ''x_0_0_0''), ((0, 1, 1), ''x_0_1_1''),
      ((1, 0, 1), ''x_1_0_1''), ((1, 1, 0), ''x_1_1_0'')]"
    by code_simp
  from t have a: "\<forall>i j k. variables ''PH'' (i, j, k) =
      (if i < length ''PH'' \<and> j < length ''PH'' div 2 + 1 \<and> k < length ''PH'' div 2 + 1 \<and>
          (j + k) mod 2 = i mod 2
       then Some (var_name i j k) else None)"
    by (rule conjunct1)
  have 1: "variables ''PH'' (1, 0, 1) = Some (var_name 1 0 1)"
    using a [THEN spec [of _ "1::nat"], THEN spec [of _ "0::nat"], THEN spec [of _ "1::nat"]]
    by simp
  have 2: "variables ''PH'' (1, 0, 0) = None"
    using a [THEN spec [of _ "1::nat"], THEN spec [of _ "0::nat"], THEN spec [of _ "0::nat"]]
    by simp
  from t have "\<forall>i. i < length ''PH'' \<longrightarrow>
      card {(j, k). (i, j, k) \<in> dom (variables ''PH'')} =
        (if even i
         then ((length ''PH'' div 2 + 1) * (length ''PH'' div 2 + 1) + 1) div 2
         else (length ''PH'' div 2 + 1) * (length ''PH'' div 2 + 1) div 2)"
    by (rule conjunct2 [THEN conjunct2, THEN conjunct2, THEN conjunct2, THEN conjunct1])
  from this [THEN spec [of _ "1::nat"]]
  have 3: "card {(j, k). (1, j, k) \<in> dom (variables ''PH'')} = 2"
    by simp
  from t have "card (dom (variables ''PH'')) =
     (\<Sum>i<length ''PH''.
        if even i
        then ((length ''PH'' div 2 + 1) * (length ''PH'' div 2 + 1) + 1) div 2
        else (length ''PH'' div 2 + 1) * (length ''PH'' div 2 + 1) div 2)"
    by (rule conjunct2 [THEN conjunct2, THEN conjunct2, THEN conjunct2, THEN conjunct2])
  moreover have "{..<length ''PH''} = {0, Suc 0}"
    by auto
  ultimately have 4: "card (dom (variables ''PH'')) = 4"
    by simp
  from 0 1 2 3 4 show ?thesis
    by (intro conjI)
qed

section \<open>Decoding\<close>

lemma decode_item_one:
  "decode_item (var_name i j k, 1) positions = Inr (positions(int i \<mapsto> (int j, int k)))"
  by (simp add: split_var_name seq_get_def py_int_str_nat)

lemma decode_item_other: "v \<noteq> 1 \<Longrightarrow> decode_item (name, v) positions = Inr positions"
  by simp

lemma decode_loop:
  assumes "\<forall>i j k j' k'. ((i, j, k), 1) \<in> set asg \<and> ((i, j', k'), 1) \<in> set asg \<longrightarrow>
      j = j' \<and> k = k'"
  shows "\<exists>positions.
     for_each (map (\<lambda>((i, j, k), v). (var_name i j k, v)) asg) decode_item start = Inr positions \<and>
     (\<forall>i j k. ((i, j, k), 1) \<in> set asg \<longrightarrow> positions (int i) = Some (int j, int k)) \<and>
     (\<forall>x. (\<forall>i j k. ((i, j, k), 1) \<in> set asg \<longrightarrow> int i \<noteq> x) \<longrightarrow> positions x = start x)"
  using assms
proof (induction asg arbitrary: start)
  case Nil
  show ?case by simp
next
  case (Cons a asg)
  obtain i0 j0 k0 v where a: "a = ((i0, j0, k0), v)"
    by (cases a) auto
  have U: "j = j' \<and> k = k'"
    if "((i, j, k), 1) \<in> set (a # asg)" "((i, j', k'), 1) \<in> set (a # asg)" for i j k j' k'
    using Cons.prems that by blast
  have u: "\<forall>i j k j' k'. ((i, j, k), 1) \<in> set asg \<and> ((i, j', k'), 1) \<in> set asg \<longrightarrow>
      j = j' \<and> k = k'"
  proof (intro allI impI)
    fix i j k j' k'
    assume "((i, j, k), 1) \<in> set asg \<and> ((i, j', k'), 1) \<in> set asg"
    then have "((i, j, k), 1) \<in> set (a # asg)" "((i, j', k'), 1) \<in> set (a # asg)"
      by simp_all
    then show "j = j' \<and> k = k'"
      by (rule U)
  qed
  show ?case
  proof (cases "v = 1")
    case False
    from Cons.IH [OF u, of start] obtain positions where
      p: "for_each (map (\<lambda>((i, j, k), v). (var_name i j k, v)) asg) decode_item start = Inr positions"
      and h: "\<forall>i j k. ((i, j, k), 1) \<in> set asg \<longrightarrow> positions (int i) = Some (int j, int k)"
      and r: "\<forall>x. (\<forall>i j k. ((i, j, k), 1) \<in> set asg \<longrightarrow> int i \<noteq> x) \<longrightarrow> positions x = start x"
      by blast
    from False have m: "((i, j, k), 1) \<in> set (a # asg) \<longleftrightarrow> ((i, j, k), 1) \<in> set asg" for i j k
      by (auto simp: a)
    show ?thesis
      unfolding m using False p h r by (intro exI [of _ positions]) (simp add: a)
  next
    case True
    let ?s = "start(int i0 \<mapsto> (int j0, int k0))"
    from Cons.IH [OF u, of ?s] obtain positions where
      p: "for_each (map (\<lambda>((i, j, k), v). (var_name i j k, v)) asg) decode_item ?s = Inr positions"
      and h: "\<forall>i j k. ((i, j, k), 1) \<in> set asg \<longrightarrow> positions (int i) = Some (int j, int k)"
      and r: "\<forall>x. (\<forall>i j k. ((i, j, k), 1) \<in> set asg \<longrightarrow> int i \<noteq> x) \<longrightarrow> positions x = ?s x"
      by blast
    have 1: "for_each (map (\<lambda>((i, j, k), v). (var_name i j k, v)) (a # asg)) decode_item start =
        Inr positions"
      using p by (simp add: a True decode_item_one del: decode_item.simps)
    have 2: "positions (int i) = Some (int j, int k)" if "((i, j, k), 1) \<in> set (a # asg)" for i j k
    proof (cases "((i, j, k), 1) \<in> set asg")
      case True
      with h show ?thesis by blast
    next
      case False
      with that have e: "i = i0" "j = j0" "k = k0"
        by (auto simp: a)
      show ?thesis
      proof (cases "\<exists>j' k'. ((i0, j', k'), 1) \<in> set asg")
        case True
        then obtain j' k' where in': "((i0, j', k'), 1) \<in> set asg"
          by blast
        have "j0 = j' \<and> k0 = k'"
          by (rule U [of i0 j0 k0 j' k']) (simp_all add: a \<open>v = 1\<close> in')
        moreover from in' h have "positions (int i0) = Some (int j', int k')"
          by blast
        ultimately show ?thesis
          by (simp add: e)
      next
        case False
        then have "\<forall>i j k. ((i, j, k), 1) \<in> set asg \<longrightarrow> int i \<noteq> int i0"
          by auto
        with r have "positions (int i0) = ?s (int i0)"
          by blast
        with e show ?thesis
          by simp
      qed
    qed
    have 3: "positions x = start x"
      if "\<forall>i j k. ((i, j, k), 1) \<in> set (a # asg) \<longrightarrow> int i \<noteq> x" for x
    proof -
      from that have "int i0 \<noteq> x"
        by (auto simp: a True)
      moreover from that have "\<forall>i j k. ((i, j, k), 1) \<in> set asg \<longrightarrow> int i \<noteq> x"
        by auto
      with r have "positions x = ?s x"
        by blast
      ultimately show ?thesis
        by simp
    qed
    from 1 2 3 show ?thesis
      by blast
  qed
qed

text \<open>
  Claim C9. A sample is given by its entries in iteration order, each a variable
  \<open>(i,j,k)\<close> with its value, and is passed to the decoder under the names \<open>x_i_j_k\<close>. When
  no bead has two different variables with value 1, decoding succeeds and the positions
  it returns hold, for every variable with value 1, its coordinate \<open>(j,k)\<close> at its bead
  \<open>i\<close>; the beads with a position are those with a variable of value 1. In particular,
  with exactly one such variable per bead, every bead gets the coordinate written in the
  name of that variable.
\<close>

theorem decode_round_trip:
  assumes "\<forall>i j k j' k'. ((i, j, k), 1) \<in> set asg \<and> ((i, j', k'), 1) \<in> set asg \<longrightarrow>
      j = j' \<and> k = k'"
  shows "\<exists>positions.
     decode (map (\<lambda>((i, j, k), v). (var_name i j k, v)) asg) = Inr positions \<and>
     (\<forall>i j k. ((i, j, k), 1) \<in> set asg \<longrightarrow> positions (int i) = Some (int j, int k)) \<and>
     dom positions = {int i | i j k. ((i, j, k), 1) \<in> set asg}"
proof -
  from decode_loop [OF assms, of Map.empty] obtain positions where
    p: "for_each (map (\<lambda>((i, j, k), v). (var_name i j k, v)) asg) decode_item Map.empty =
      Inr positions"
    and h: "\<forall>i j k. ((i, j, k), 1) \<in> set asg \<longrightarrow> positions (int i) = Some (int j, int k)"
    and r: "\<forall>x. (\<forall>i j k. ((i, j, k), 1) \<in> set asg \<longrightarrow> int i \<noteq> x) \<longrightarrow> positions x = None"
    by (elim exE conjE) (rule that; assumption)
  have d: "dom positions = {int i | i j k. ((i, j, k), 1) \<in> set asg}"
  proof (intro equalityI subsetI)
    fix x assume "x \<in> dom positions"
    then have n: "positions x \<noteq> None"
      by (simp add: dom_def)
    have "\<not> (\<forall>i j k. ((i, j, k), 1) \<in> set asg \<longrightarrow> int i \<noteq> x)"
    proof
      assume "\<forall>i j k. ((i, j, k), 1) \<in> set asg \<longrightarrow> int i \<noteq> x"
      then have "positions x = None"
        by (rule r [THEN spec, THEN mp])
      with n show False
        by simp
    qed
    then obtain i j k where "((i, j, k), 1) \<in> set asg" "int i = x"
      by blast
    then show "x \<in> {int i | i j k. ((i, j, k), 1) \<in> set asg}"
      by blast
  next
    fix x assume "x \<in> {int i | i j k. ((i, j, k), 1) \<in> set asg}"
    then obtain i j k where x: "x = int i" and m: "((i, j, k), 1) \<in> set asg"
      by blast
    from m have "positions (int i) = Some (int j, int k)"
      by (rule h [THEN spec, THEN spec, THEN spec, THEN mp])
    then show "x \<in> dom positions"
      by (simp add: x dom_def)
  qed
  from p have "decode (map (\<lambda>((i, j, k), v). (var_name i j k, v)) asg) = Inr positions"
    by (simp only: decode_def)
  then show ?thesis
    using h d by (intro exI [of _ positions] conjI)
qed

theorem decode_round_trip_witness:
  "\<exists>positions.
     decode [(''x_0_1_1'', 1), (''x_0_0_0'', 0), (''x_1_0_1'', 0), (''x_1_1_0'', 1)] = Inr positions \<and>
     positions 0 = Some (1, 1) \<and> positions 1 = Some (1, 0) \<and> dom positions = {0, 1}"
proof -
  let ?asg = "[((0, 1, 1), 1), ((0, 0, 0), 0), ((1, 0, 1), 0), ((1, 1, 0), 1)]
    :: ((nat \<times> nat \<times> nat) \<times> int) list"
  have u: "\<forall>i j k j' k'. ((i, j, k), 1) \<in> set ?asg \<and> ((i, j', k'), 1) \<in> set ?asg \<longrightarrow>
      j = j' \<and> k = k'"
  proof (intro allI impI)
    fix i j k j' k'
    assume "((i, j, k), 1) \<in> set ?asg \<and> ((i, j', k'), 1) \<in> set ?asg"
    then show "j = j' \<and> k = k'"
      by auto
  qed
  have m: "map (\<lambda>((i, j, k), v). (var_name i j k, v)) ?asg =
      [(''x_0_1_1'', 1), (''x_0_0_0'', 0), (''x_1_0_1'', 0), (''x_1_1_0'', 1)]"
    by code_simp
  from decode_round_trip [OF u] obtain positions where
    p: "decode (map (\<lambda>((i, j, k), v). (var_name i j k, v)) ?asg) = Inr positions"
    and h: "\<forall>i j k. ((i, j, k), 1) \<in> set ?asg \<longrightarrow> positions (int i) = Some (int j, int k)"
    and d: "dom positions = {int i | i j k. ((i, j, k), 1) \<in> set ?asg}"
    by (elim exE conjE) (rule that; assumption)
  have 0: "positions 0 = Some (1, 1)"
    using h [THEN spec [of _ "0::nat"], THEN spec [of _ "1::nat"], THEN spec [of _ "1::nat"]]
    by simp
  have 1: "positions 1 = Some (1, 0)"
    using h [THEN spec [of _ "1::nat"], THEN spec [of _ "1::nat"], THEN spec [of _ "0::nat"]]
    by simp
  have "{int i | i j k. ((i, j, k), 1) \<in> set ?asg} = {0, 1}"
  proof (intro equalityI subsetI)
    fix x assume "x \<in> {int i | i j k. ((i, j, k), 1) \<in> set ?asg}"
    then obtain i j k where "x = int i" "((i, j, k), 1) \<in> set ?asg"
      by blast
    then show "x \<in> {0, 1}"
      by auto
  next
    fix x :: int assume "x \<in> {0, 1}"
    then consider "x = int 0" | "x = int 1"
      by auto
    then show "x \<in> {int i | i j k. ((i, j, k), 1) \<in> set ?asg}"
    proof cases
      case 1
      have "((0, 1, 1), 1) \<in> set ?asg"
        by simp
      with 1 show ?thesis
        by blast
    next
      case 2
      have "((1, 1, 0), 1) \<in> set ?asg"
        by simp
      with 2 show ?thesis
        by blast
    qed
  qed
  with d have 2: "dom positions = {0, 1}"
    by simp
  from p have "decode [(''x_0_1_1'', 1), (''x_0_0_0'', 0), (''x_1_0_1'', 0), (''x_1_1_0'', 1)] =
      Inr positions"
    by (simp only: m)
  then show ?thesis
    using 0 1 2 by (intro exI [of _ positions] conjI)
qed

end
